theory Spec2Isabelle
  imports Complex_Main
begin

section \<open>Circuit breaker (backend/app/services/cloud\_ai/circuit\_breaker.py)\<close>

text \<open>
  Clock readings (\<^verbatim>\<open>time.time()\<close>) and durations are modelled as real numbers;
  every read of the clock is an explicit argument of the operation that performs it.
  The counters are Python integers.
\<close>

datatype CircuitState = CLOSED | OPEN | HALF_OPEN

record CircuitBreakerConfig =
  failure_threshold :: int
  timeout :: real
  success_threshold :: int
  max_timeout :: real

definition default_config :: CircuitBreakerConfig where
  "default_config =
     \<lparr>failure_threshold = 5, timeout = 60, success_threshold = 2, max_timeout = 300\<rparr>"

record CircuitBreakerState =
  state :: CircuitState
  failure_count :: int
  success_count :: int
  last_failure_time :: "real option"
  opened_at :: "real option"
  timeout :: real

text \<open>The dataclass defaults: \<^verbatim>\<open>CircuitBreakerState()\<close>.\<close>

definition new_state :: CircuitBreakerState where
  "new_state =
     \<lparr>state = CLOSED, failure_count = 0, success_count = 0,
      last_failure_time = None, opened_at = None, timeout = 60\<rparr>"

record CircuitBreaker =
  config :: CircuitBreakerConfig
  states :: "string \<rightharpoonup> CircuitBreakerState"

text \<open>\<^verbatim>\<open>CircuitBreaker(config)\<close>: no provider has an entry yet.\<close>

definition new_breaker :: "CircuitBreakerConfig \<Rightarrow> CircuitBreaker" where
  "new_breaker cfg = \<lparr>config = cfg, states = Map.empty\<rparr>"

text \<open>
  Every operation starts with
  \<^verbatim>\<open>if provider not in self.states: self.states[provider] = CircuitBreakerState()\<close>
  followed by \<^verbatim>\<open>state = self.states[provider]\<close>, and then mutates that object in place.
  \<open>fetch\<close> is the read (a fresh state for an absent provider), \<open>store\<close> the write
  back into the dictionary.
\<close>

definition fetch :: "CircuitBreaker \<Rightarrow> string \<Rightarrow> CircuitBreakerState" where
  "fetch cb provider = (case states cb provider of None \<Rightarrow> new_state | Some s \<Rightarrow> s)"

definition store :: "CircuitBreaker \<Rightarrow> string \<Rightarrow> CircuitBreakerState \<Rightarrow> CircuitBreaker" where
  "store cb provider s = cb\<lparr>states := (states cb)(provider \<mapsto> s)\<rparr>"

text \<open>
  Python truthiness of an \<^verbatim>\<open>Optional[float]\<close>, as tested by
  \<^verbatim>\<open>state.state == CircuitState.OPEN and state.opened_at\<close>: \<^verbatim>\<open>None\<close> and \<^verbatim>\<open>0.0\<close> are false.
\<close>

definition truthy :: "real option \<Rightarrow> bool" where
  "truthy v = (case v of None \<Rightarrow> False | Some t \<Rightarrow> t \<noteq> 0)"

definition lazy_half_open :: "real \<Rightarrow> CircuitBreakerState \<Rightarrow> CircuitBreakerState" where
  "lazy_half_open now s =
     (case opened_at s of
        None \<Rightarrow> s
      | Some t \<Rightarrow>
          if state s = OPEN \<and> truthy (opened_at s) then
            (let elapsed = now - t in
             if elapsed \<ge> CircuitBreakerState.timeout s
             then s\<lparr>state := HALF_OPEN, success_count := 0\<rparr>
             else s)
          else s)"

definition get_state :: "CircuitBreaker \<Rightarrow> real \<Rightarrow> string \<Rightarrow> CircuitState \<times> CircuitBreaker" where
  "get_state cb now provider =
     (let s = lazy_half_open now (fetch cb provider)
      in (state s, store cb provider s))"

definition record_success :: "CircuitBreaker \<Rightarrow> string \<Rightarrow> CircuitBreaker" where
  "record_success cb provider =
     (let s = fetch cb provider;
          s' =
            (if state s = HALF_OPEN then
               (let s1 = s\<lparr>success_count := success_count s + 1\<rparr> in
                if success_count s1 \<ge> success_threshold (config cb)
                then s1\<lparr>state := CLOSED, failure_count := 0, success_count := 0,
                        timeout := CircuitBreakerConfig.timeout (config cb)\<rparr>
                else s1)
             else if state s = CLOSED then s\<lparr>failure_count := 0\<rparr>
             else s)
      in store cb provider s')"

text \<open>
  \<open>record_failure\<close> reads the clock twice: once for \<open>last_failure_time\<close>
  (\<open>t_fail\<close>) and, on the branches that open the circuit, once more for
  \<open>opened_at\<close> (\<open>t_open\<close>).
\<close>

definition record_failure :: "CircuitBreaker \<Rightarrow> real \<Rightarrow> real \<Rightarrow> string \<Rightarrow> CircuitBreaker" where
  "record_failure cb t_fail t_open provider =
     (let s = fetch cb provider;
          s1 = s\<lparr>failure_count := failure_count s + 1, last_failure_time := Some t_fail\<rparr>;
          s' =
            (if state s1 = HALF_OPEN then
               s1\<lparr>state := OPEN, opened_at := Some t_open,
                  timeout := min (CircuitBreakerState.timeout s1 * 2) (max_timeout (config cb))\<rparr>
             else if state s1 = CLOSED then
               (if failure_count s1 \<ge> failure_threshold (config cb)
                then s1\<lparr>state := OPEN, opened_at := Some t_open,
                        timeout := CircuitBreakerConfig.timeout (config cb)\<rparr>
                else s1)
             else s1)
      in store cb provider s')"

definition is_available :: "CircuitBreaker \<Rightarrow> real \<Rightarrow> string \<Rightarrow> bool \<times> CircuitBreaker" where
  "is_available cb now provider =
     (let (current_state, cb') = get_state cb now provider
      in (current_state \<noteq> OPEN, cb'))"

text \<open>
  A run of consecutive \<open>record_failure\<close> calls for one provider, each with its own
  clock readings and with no other call in between.
\<close>

fun record_failures :: "CircuitBreaker \<Rightarrow> (real \<times> real) list \<Rightarrow> string \<Rightarrow> CircuitBreaker" where
  "record_failures cb [] provider = cb"
| "record_failures cb ((t_fail, t_open) # ts) provider =
     record_failures (record_failure cb t_fail t_open provider) ts provider"

text \<open>A run of consecutive \<open>record_success\<close> calls for one provider.\<close>

fun record_successes :: "CircuitBreaker \<Rightarrow> nat \<Rightarrow> string \<Rightarrow> CircuitBreaker" where
  "record_successes cb 0 provider = cb"
| "record_successes cb (Suc n) provider = record_successes (record_success cb provider) n provider"

text \<open>Closed, with no failures counted and the timeout back at the base value.\<close>

definition closed_clean :: "CircuitBreaker \<Rightarrow> string \<Rightarrow> bool" where
  "closed_clean cb provider \<longleftrightarrow>
     state (fetch cb provider) = CLOSED \<and> failure_count (fetch cb provider) = 0 \<and>
     CircuitBreakerState.timeout (fetch cb provider) = CircuitBreakerConfig.timeout (config cb)"

text \<open>
  \<open>call\<close> wraps an arbitrary operation. The operation is modelled as a function on an
  outside world \<open>'w\<close> that either returns a value (\<open>Inr\<close>) or raises an exception
  derived from \<^verbatim>\<open>Exception\<close> (\<open>Inl\<close>), which is what the \<^verbatim>\<open>except Exception\<close>
  clause catches; a world that comes back unchanged means the operation was not
  invoked. The three clock readings are those of \<open>is_available\<close> and of
  \<open>record_failure\<close>.
\<close>

datatype 'e call_error = CircuitBreakerOpenError string | Raised 'e

definition call ::
  "CircuitBreaker \<Rightarrow> real \<Rightarrow> real \<Rightarrow> real \<Rightarrow> string \<Rightarrow> ('w \<Rightarrow> ('e + 'a) \<times> 'w) \<Rightarrow> 'w \<Rightarrow>
   ('e call_error + 'a) \<times> CircuitBreaker \<times> 'w" where
  "call cb now t_fail t_open provider func w =
     (let (available, cb1) = is_available cb now provider in
      if \<not> available then
        (Inl (CircuitBreakerOpenError (''Circuit breaker is open for provider: '' @ provider)),
         cb1, w)
      else
        (case func w of
           (Inr result, w') \<Rightarrow> (Inr result, record_success cb1 provider, w')
         | (Inl e, w') \<Rightarrow> (Inl (Raised e), record_failure cb1 t_fail t_open provider, w')))"

section \<open>The shared store (Redis)\<close>

text \<open>
  The store maps a key to a value and an optional absolute expiry time. A key whose
  expiry time has been reached is absent for every command. Only the commands the two
  services issue are modelled: GET, INCR, EXPIRE (together in one pipeline) and SETEX.
  The store's clock is the clock of the caller.
\<close>

type_synonym 'v redis = "string \<rightharpoonup> 'v \<times> real option"

definition redis_live :: "real \<Rightarrow> 'v \<times> real option \<Rightarrow> bool" where
  "redis_live now e = (case snd e of None \<Rightarrow> True | Some t \<Rightarrow> now < t)"

definition redis_get :: "'v redis \<Rightarrow> real \<Rightarrow> string \<Rightarrow> 'v option" where
  "redis_get r now k =
     (case r k of
        None \<Rightarrow> None
      | Some e \<Rightarrow> if redis_live now e then Some (fst e) else None)"

definition redis_incr :: "int redis \<Rightarrow> real \<Rightarrow> string \<Rightarrow> int redis" where
  "redis_incr r now k =
     (case r k of
        None \<Rightarrow> r(k \<mapsto> (1, None))
      | Some e \<Rightarrow> if redis_live now e then r(k \<mapsto> (fst e + 1, snd e)) else r(k \<mapsto> (1, None)))"

definition redis_expire :: "'v redis \<Rightarrow> real \<Rightarrow> string \<Rightarrow> real \<Rightarrow> 'v redis" where
  "redis_expire r now k seconds =
     (case r k of
        None \<Rightarrow> r
      | Some e \<Rightarrow>
          if redis_live now e then
            (if seconds \<le> 0 then r(k := None) else r(k \<mapsto> (fst e, Some (now + seconds))))
          else r(k := None))"

definition redis_setex :: "'v redis \<Rightarrow> real \<Rightarrow> string \<Rightarrow> real \<Rightarrow> 'v \<Rightarrow> 'v redis" where
  "redis_setex r now k seconds v = r(k \<mapsto> (v, Some (now + seconds)))"

section \<open>Rate limiter (backend/app/services/rate\_limiter.py)\<close>

text \<open>\<^verbatim>\<open>str\<close> of a Python integer, for the f-strings that build keys and messages.\<close>

definition digit_char :: "nat \<Rightarrow> char" where
  "digit_char d = char_of (48 + d)"

function str_nat :: "nat \<Rightarrow> string" where
  "str_nat n = (if n < 10 then [digit_char n] else str_nat (n div 10) @ [digit_char (n mod 10)])"
  by pat_completeness auto
termination
  by (relation "measure id") auto

declare str_nat.simps [simp del]

definition str_int :: "int \<Rightarrow> string" where
  "str_int i = (if i < 0 then CHR ''-'' # str_nat (nat (- i)) else str_nat (nat i))"

text \<open>\<^verbatim>\<open>int(x)\<close> of a float truncates towards zero.\<close>

definition py_int :: "real \<Rightarrow> int" where
  "py_int x = (if x \<ge> 0 then \<lfloor>x\<rfloor> else \<lceil>x\<rceil>)"

text \<open>
  The three tier limits are read from the application settings (\<^verbatim>\<open>app.core.config\<close>)
  when the limiter is created; they are the arguments of \<open>RateLimiter_init\<close>, which
  fixes the window at one hour as \<^verbatim>\<open>__init__\<close> does.
\<close>

record RateLimiter =
  authenticated_limit :: int
  demo_limit :: int
  admin_limit :: int
  window_seconds :: int

definition RateLimiter_init :: "int \<Rightarrow> int \<Rightarrow> int \<Rightarrow> RateLimiter" where
  "RateLimiter_init rate_limit_authenticated rate_limit_demo rate_limit_admin =
     \<lparr>authenticated_limit = rate_limit_authenticated, demo_limit = rate_limit_demo,
      admin_limit = rate_limit_admin, window_seconds = 3600\<rparr>"

definition tier_limit :: "RateLimiter \<Rightarrow> bool \<Rightarrow> bool \<Rightarrow> int" where
  "tier_limit rl is_demo is_admin =
     (if is_admin then admin_limit rl
      else if is_demo then demo_limit rl
      else authenticated_limit rl)"

definition window_start_of :: "RateLimiter \<Rightarrow> int \<Rightarrow> int" where
  "window_start_of rl current_time = current_time - (current_time mod window_seconds rl)"

definition rate_key :: "string \<Rightarrow> bool \<Rightarrow> int \<Rightarrow> string" where
  "rate_key identifier is_demo window_start =
     (if is_demo
      then ''rate_limit:demo:'' @ identifier @ '':hour:'' @ str_int window_start
      else ''rate_limit:'' @ identifier @ '':hour:'' @ str_int window_start)"

text \<open>
  \<open>check_limit\<close> talks to the store twice: first \<^verbatim>\<open>await self.redis.get(key)\<close>, then,
  when the count read is below the limit, \<^verbatim>\<open>await pipe.execute()\<close> of the pipeline
  holding INCR and EXPIRE. The two halves are \<open>check_limit_read\<close>, which yields what the
  coroutine holds when it resumes after the GET, and \<open>check_limit_finish\<close>, which runs
  from there to the return. \<open>check_limit\<close> is one call that runs undisturbed.
\<close>

record pending_check =
  pc_limit :: int
  pc_key :: string
  pc_current_count :: int
  pc_reset_at :: int

definition check_limit_read ::
  "RateLimiter \<Rightarrow> int redis \<Rightarrow> real \<Rightarrow> string \<Rightarrow> bool \<Rightarrow> bool \<Rightarrow> pending_check" where
  "check_limit_read rl r now identifier is_demo is_admin =
     (let limit = tier_limit rl is_demo is_admin;
          current_time = py_int now;
          window_start = window_start_of rl current_time;
          key = rate_key identifier is_demo window_start;
          current_count = (case redis_get r now key of None \<Rightarrow> 0 | Some c \<Rightarrow> c);
          reset_at = window_start + window_seconds rl
      in \<lparr>pc_limit = limit, pc_key = key, pc_current_count = current_count,
          pc_reset_at = reset_at\<rparr>)"

definition check_limit_finish ::
  "RateLimiter \<Rightarrow> int redis \<Rightarrow> real \<Rightarrow> pending_check \<Rightarrow> (bool \<times> int \<times> int) \<times> int redis" where
  "check_limit_finish rl r now pc =
     (if pc_current_count pc \<ge> pc_limit pc then ((False, 0, pc_reset_at pc), r)
      else
        (let r1 = redis_incr r now (pc_key pc);
             r2 = redis_expire r1 now (pc_key pc) (of_int (window_seconds rl))
         in ((True, pc_limit pc - pc_current_count pc - 1, pc_reset_at pc), r2)))"

definition check_limit ::
  "RateLimiter \<Rightarrow> int redis \<Rightarrow> real \<Rightarrow> string \<Rightarrow> bool \<Rightarrow> bool \<Rightarrow> (bool \<times> int \<times> int) \<times> int redis" where
  "check_limit rl r now identifier is_demo is_admin =
     check_limit_finish rl r now (check_limit_read rl r now identifier is_demo is_admin)"

text \<open>A sequence of calls by one caller, one after the other, at the given clock readings.\<close>

fun check_limits ::
  "RateLimiter \<Rightarrow> int redis \<Rightarrow> real list \<Rightarrow> string \<Rightarrow> bool \<Rightarrow> bool \<Rightarrow> (bool \<times> int \<times> int) list \<times> int redis" where
  "check_limits rl r [] identifier is_demo is_admin = ([], r)"
| "check_limits rl r (now # ts) identifier is_demo is_admin =
     (let (res, r1) = check_limit rl r now identifier is_demo is_admin;
          (rest, r2) = check_limits rl r1 ts identifier is_demo is_admin
      in (res # rest, r2))"

text \<open>
  What a call answers when the count it has read is \<open>c\<close>, and what it means for the store
  to hold the count \<open>c\<close> under a key with an expiry not before \<open>bound\<close> (no entry
  counts as 0).
\<close>

definition verdict :: "int \<Rightarrow> int \<Rightarrow> int \<Rightarrow> bool \<times> int \<times> int" where
  "verdict limit c reset_at =
     (if c \<ge> limit then (False, 0, reset_at) else (True, limit - c - 1, reset_at))"

definition counter_is :: "int redis \<Rightarrow> string \<Rightarrow> int \<Rightarrow> real \<Rightarrow> bool" where
  "counter_is r k c bound \<longleftrightarrow>
     (case r k of
        None \<Rightarrow> c = 0
      | Some (v, None) \<Rightarrow> v = c
      | Some (v, Some e) \<Rightarrow> v = c \<and> bound \<le> e)"

text \<open>
  Two calls A and B of the same caller that overlap: the store serves the GET of A and
  the GET of B before it executes the pipeline of A and then the pipeline of B. Every
  \<^verbatim>\<open>await\<close> of \<open>check_limit\<close> is a point where the other coroutine may run, so this
  is one of the schedules of two concurrent calls. Each store operation has its own clock
  reading.
\<close>

definition check_limit_overlapped ::
  "RateLimiter \<Rightarrow> int redis \<Rightarrow> real \<times> real \<Rightarrow> real \<times> real \<Rightarrow> string \<Rightarrow> bool \<Rightarrow> bool \<Rightarrow>
   ((bool \<times> int \<times> int) \<times> (bool \<times> int \<times> int)) \<times> int redis" where
  "check_limit_overlapped rl r ta tb identifier is_demo is_admin =
     (let pa = check_limit_read rl r (fst ta) identifier is_demo is_admin;
          pb = check_limit_read rl r (fst tb) identifier is_demo is_admin;
          (res_a, r1) = check_limit_finish rl r (snd ta) pa;
          (res_b, r2) = check_limit_finish rl r1 (snd tb) pb
      in ((res_a, res_b), r2))"

section \<open>Health checker (backend/app/services/provider\_health\_checker.py)\<close>

text \<open>
  What the HTTP client does with the probe: a response with a status code,
  \<^verbatim>\<open>httpx.TimeoutException\<close>, or any other exception (with its message).
\<close>

datatype probe_outcome = Response int | TimeoutException | OtherException string

text \<open>\<open>last_check\<close> is a \<^verbatim>\<open>datetime\<close>; it is modelled as a reading of the same clock.\<close>

record ProviderHealthStatus =
  status :: string
  last_check :: real
  response_time_ms :: "real option"
  error_message :: "string option"

definition HEALTH_CHECK_ENDPOINTS :: "(string \<times> string) list" where
  "HEALTH_CHECK_ENDPOINTS =
     [(''groq'', ''https://api.groq.com/openai/v1/models''),
      (''together'', ''https://api.together.xyz/v1/models''),
      (''openrouter'', ''https://openrouter.ai/api/v1/models''),
      (''huggingface'', ''https://huggingface.co/api/models'')]"

definition CACHE_TTL :: real where
  "CACHE_TTL = 60"

definition get_cache_key :: "string \<Rightarrow> string" where
  "get_cache_key provider = ''provider:health:'' @ provider"

definition check_provider_endpoint ::
  "(string \<Rightarrow> probe_outcome) \<Rightarrow> string \<Rightarrow> string \<Rightarrow> real \<Rightarrow> real \<Rightarrow> ProviderHealthStatus" where
  "check_provider_endpoint net provider url start_time end_time =
     (let rt = (end_time - start_time) * 1000 in
      case net url of
        Response status_code \<Rightarrow>
          (if status_code = 200 then
             \<lparr>status = ''healthy'', last_check = end_time,
              response_time_ms = Some rt, error_message = None\<rparr>
           else if 200 < status_code \<and> status_code < 500 then
             \<lparr>status = ''degraded'', last_check = end_time,
              response_time_ms = Some rt, error_message = Some (''HTTP '' @ str_int status_code)\<rparr>
           else
             \<lparr>status = ''down'', last_check = end_time,
              response_time_ms = Some rt, error_message = Some (''HTTP '' @ str_int status_code)\<rparr>)
      | TimeoutException \<Rightarrow>
          \<lparr>status = ''down'', last_check = end_time,
           response_time_ms = Some rt, error_message = Some ''Request timeout''\<rparr>
      | OtherException msg \<Rightarrow>
          \<lparr>status = ''down'', last_check = end_time,
           response_time_ms = Some rt, error_message = Some msg\<rparr>)"

text \<open>
  The surroundings of one health check: the network, whether the cache read or the cache
  write raises (both are caught and logged by the code), and the clock when the check
  starts and when the probe has answered. The cache holds the JSON of a status; encoding
  and decoding are taken to be inverse to each other, so the cache holds the status.
\<close>

record health_env =
  net :: "string \<Rightarrow> probe_outcome"
  cache_get_raises :: bool
  cache_setex_raises :: bool
  start_time :: real
  end_time :: real

text \<open>\<^verbatim>\<open>not health_status.error_message\<close>: \<^verbatim>\<open>None\<close> and the empty string are false.\<close>

definition str_truthy :: "string option \<Rightarrow> bool" where
  "str_truthy m = (case m of None \<Rightarrow> False | Some msg \<Rightarrow> msg \<noteq> [])"

definition fold_circuit_state :: "CircuitState \<Rightarrow> ProviderHealthStatus \<Rightarrow> ProviderHealthStatus" where
  "fold_circuit_state circuit_state health_status =
     (if circuit_state = OPEN then
        health_status\<lparr>status := ''down'',
          error_message :=
            (if \<not> str_truthy (error_message health_status) then Some ''Circuit breaker open''
             else error_message health_status)\<rparr>
      else if circuit_state = HALF_OPEN then
        (if status health_status = ''healthy'' then health_status\<lparr>status := ''degraded''\<rparr>
         else health_status)
      else health_status)"

definition check_provider_health ::
  "health_env \<Rightarrow> CircuitBreaker \<Rightarrow> ProviderHealthStatus redis \<Rightarrow> string \<Rightarrow>
   ProviderHealthStatus \<times> CircuitBreaker \<times> ProviderHealthStatus redis" where
  "check_provider_health env cb cache provider =
     (let cache_key = get_cache_key provider;
          cached_data =
            (if cache_get_raises env then None
             else redis_get cache (start_time env) cache_key)
      in case cached_data of
           Some data \<Rightarrow> (data, cb, cache)
         | None \<Rightarrow>
             (case map_of HEALTH_CHECK_ENDPOINTS provider of
                None \<Rightarrow>
                  (\<lparr>status = ''down'', last_check = start_time env, response_time_ms = None,
                    error_message = Some (''Unknown provider: '' @ provider)\<rparr>, cb, cache)
              | Some url \<Rightarrow>
                  (let probed = check_provider_endpoint (net env) provider url
                                  (start_time env) (end_time env);
                       (circuit_state, cb') = get_state cb (end_time env) provider;
                       health_status = fold_circuit_state circuit_state probed;
                       cache' =
                         (if cache_setex_raises env then cache
                          else redis_setex cache (end_time env) cache_key CACHE_TTL health_status)
                   in (health_status, cb', cache'))))"

text \<open>
  \<open>check_all_providers\<close> gathers one task per provider with
  \<^verbatim>\<open>return_exceptions=True\<close>, so every task contributes either the status it returned
  (\<open>Inr\<close>) or the exception it raised (\<open>Inl\<close>, with the exception's message; an
  instance of \<^verbatim>\<open>Exception\<close>, which is what the \<^verbatim>\<open>isinstance\<close> test recognises), in
  the order of the providers. The task run for a provider is the argument \<open>check\<close>.
\<close>

definition synthetic_down :: "real \<Rightarrow> string \<Rightarrow> ProviderHealthStatus" where
  "synthetic_down utcnow msg =
     \<lparr>status = ''down'', last_check = utcnow, response_time_ms = None,
      error_message = Some msg\<rparr>"

fun build_statuses ::
  "real \<Rightarrow> (string \<rightharpoonup> ProviderHealthStatus) \<Rightarrow> (string \<times> (string + ProviderHealthStatus)) list \<Rightarrow>
   (string \<rightharpoonup> ProviderHealthStatus)" where
  "build_statuses utcnow health_statuses [] = health_statuses"
| "build_statuses utcnow health_statuses ((provider, result) # rest) =
     build_statuses utcnow
       (case result of
          Inl e \<Rightarrow> health_statuses(provider \<mapsto> synthetic_down utcnow e)
        | Inr st \<Rightarrow> health_statuses(provider \<mapsto> st))
       rest"

definition check_all_providers_of ::
  "(string \<times> string) list \<Rightarrow> (string \<Rightarrow> string + ProviderHealthStatus) \<Rightarrow> real \<Rightarrow>
   (string \<rightharpoonup> ProviderHealthStatus)" where
  "check_all_providers_of endpoints check utcnow =
     (let providers = map fst endpoints;
          results = map check providers
      in build_statuses utcnow Map.empty (zip providers results))"

definition check_all_providers ::
  "(string \<Rightarrow> string + ProviderHealthStatus) \<Rightarrow> real \<Rightarrow> (string \<rightharpoonup> ProviderHealthStatus)" where
  "check_all_providers check utcnow = check_all_providers_of HEALTH_CHECK_ENDPOINTS check utcnow"

section \<open>Execution mode presets (backend/app/services/execution\_mode\_config.py)\<close>

text \<open>
  Modelled from the spec: the enumeration \<^verbatim>\<open>ExecutionMode\<close> and the class
  \<^verbatim>\<open>ExecutionModeConfig\<close>, which this module imports from \<^verbatim>\<open>ai_council.core.models\<close>
  and \<^verbatim>\<open>ai_council.utils.config\<close>. The enumeration has the three modes, and the record
  has the fields of the execution mode config of the data model, under the names of the
  keyword arguments that the presets pass. The decimal literals of the presets are taken
  at their exact value.
\<close>

datatype ExecutionMode = FAST | BALANCED | BEST_QUALITY

record ExecutionModeConfig =
  mode :: ExecutionMode
  max_parallel_executions :: int
  timeout_seconds :: rat
  max_retries :: int
  enable_arbitration :: bool
  enable_synthesis :: bool
  accuracy_requirement :: rat
  cost_limit :: "rat option"
  preferred_model_types :: "string list"
  fallback_strategy :: string

definition EXECUTION_MODE_CONFIGS :: "(string \<times> ExecutionModeConfig) list" where
  "EXECUTION_MODE_CONFIGS =
     [(''fast'',
       \<lparr>mode = FAST, max_parallel_executions = 3, timeout_seconds = 30, max_retries = 1,
        enable_arbitration = False, enable_synthesis = True, accuracy_requirement = 7 / 10,
        cost_limit = Some 1,
        preferred_model_types =
          [''groq-mixtral-8x7b'', ''huggingface-mistral-7b'', ''together-mixtral-8x7b''],
        fallback_strategy = ''cheapest''\<rparr>),
      (''balanced'',
       \<lparr>mode = BALANCED, max_parallel_executions = 5, timeout_seconds = 60, max_retries = 3,
        enable_arbitration = True, enable_synthesis = True, accuracy_requirement = 8 / 10,
        cost_limit = Some 5,
        preferred_model_types =
          [''groq-llama3-70b'', ''together-mixtral-8x7b'', ''groq-mixtral-8x7b'',
           ''together-llama2-70b''],
        fallback_strategy = ''automatic''\<rparr>),
      (''best_quality'',
       \<lparr>mode = BEST_QUALITY, max_parallel_executions = 8, timeout_seconds = 120, max_retries = 5,
        enable_arbitration = True, enable_synthesis = True, accuracy_requirement = 95 / 100,
        cost_limit = None,
        preferred_model_types =
          [''openrouter-claude-3-sonnet'', ''openrouter-gpt4-turbo'', ''groq-llama3-70b'',
           ''together-llama2-70b''],
        fallback_strategy = ''highest_quality''\<rparr>)]"

section \<open>Model registry (backend/app/services/cloud\_ai/model\_registry.py)\<close>

text \<open>
  Modelled from the spec: the enumeration \<^verbatim>\<open>TaskType\<close> of capabilities, which this
  module imports from \<^verbatim>\<open>ai_council.core.models\<close>; its members are those that the
  registry and the tests name.
\<close>

datatype TaskType =
  REASONING | RESEARCH | CODE_GENERATION | CREATIVE_OUTPUT | FACT_CHECKING | DEBUGGING |
  VERIFICATION | IMAGE_GENERATION

text \<open>
  The registry is a dictionary literal: its iteration order is the order of the
  entries, so it is a list of pairs, and an entry is a record of the keys of the inner
  dictionaries. Costs, latencies and scores are decimal literals, taken at their exact
  value. \<open>local_only\<close> is the optional key of that name.
\<close>

record ModelConfig =
  provider :: string
  model_name :: string
  capabilities :: "TaskType list"
  cost_per_input_token :: rat
  cost_per_output_token :: rat
  average_latency :: rat
  max_context :: int
  reliability_score :: rat
  local_only :: "bool option"

type_synonym registry = "(string \<times> ModelConfig) list"

definition MODEL_REGISTRY :: registry where
  "MODEL_REGISTRY =
     [
      (''groq-llama3-70b'',
       \<lparr>provider = ''groq'', model_name = ''llama3-70b-8192'',
        capabilities = [REASONING, RESEARCH, CODE_GENERATION],
        cost_per_input_token = 59 / 100000000,
        cost_per_output_token = 79 / 100000000,
        average_latency = 1 / 2, max_context = 8192,
        reliability_score = 19 / 20, local_only = None\<rparr>),
      (''groq-mixtral-8x7b'',
       \<lparr>provider = ''groq'', model_name = ''mixtral-8x7b-32768'',
        capabilities = [REASONING, CREATIVE_OUTPUT],
        cost_per_input_token = 27 / 100000000,
        cost_per_output_token = 27 / 100000000,
        average_latency = 2 / 5, max_context = 32768,
        reliability_score = 93 / 100, local_only = None\<rparr>),
      (''together-mixtral-8x7b'',
       \<lparr>provider = ''together'', model_name = ''mistralai/Mixtral-8x7B-Instruct-v0.1'',
        capabilities = [REASONING, CODE_GENERATION],
        cost_per_input_token = 3 / 5000000,
        cost_per_output_token = 3 / 5000000,
        average_latency = 6 / 5, max_context = 32768,
        reliability_score = 23 / 25, local_only = None\<rparr>),
      (''together-llama2-70b'',
       \<lparr>provider = ''together'', model_name = ''meta-llama/Llama-2-70b-chat-hf'',
        capabilities = [RESEARCH, CREATIVE_OUTPUT],
        cost_per_input_token = 9 / 10000000,
        cost_per_output_token = 9 / 10000000,
        average_latency = 3 / 2, max_context = 4096,
        reliability_score = 9 / 10, local_only = None\<rparr>),
      (''openrouter-claude-3-sonnet'',
       \<lparr>provider = ''openrouter'', model_name = ''anthropic/claude-3-sonnet'',
        capabilities = [REASONING, RESEARCH, CODE_GENERATION, FACT_CHECKING],
        cost_per_input_token = 3 / 1000000,
        cost_per_output_token = 3 / 200000,
        average_latency = 2, max_context = 200000,
        reliability_score = 49 / 50, local_only = None\<rparr>),
      (''openrouter-gpt4-turbo'',
       \<lparr>provider = ''openrouter'', model_name = ''openai/gpt-4-turbo'',
        capabilities = [REASONING, CODE_GENERATION, DEBUGGING],
        cost_per_input_token = 1 / 100000,
        cost_per_output_token = 3 / 100000,
        average_latency = 3, max_context = 128000,
        reliability_score = 97 / 100, local_only = None\<rparr>),
      (''huggingface-mistral-7b'',
       \<lparr>provider = ''huggingface'', model_name = ''mistralai/Mistral-7B-Instruct-v0.2'',
        capabilities = [REASONING, CREATIVE_OUTPUT],
        cost_per_input_token = 1 / 5000000,
        cost_per_output_token = 1 / 5000000,
        average_latency = 5 / 2, max_context = 32768,
        reliability_score = 17 / 20, local_only = None\<rparr>),
      (''ollama-llama2'',
       \<lparr>provider = ''ollama'', model_name = ''llama2'',
        capabilities = [REASONING, RESEARCH, CREATIVE_OUTPUT],
        cost_per_input_token = 0,
        cost_per_output_token = 0,
        average_latency = 3, max_context = 4096,
        reliability_score = 17 / 20, local_only = Some True\<rparr>),
      (''ollama-mistral'',
       \<lparr>provider = ''ollama'', model_name = ''mistral'',
        capabilities = [REASONING, CODE_GENERATION, CREATIVE_OUTPUT],
        cost_per_input_token = 0,
        cost_per_output_token = 0,
        average_latency = 5 / 2, max_context = 8192,
        reliability_score = 87 / 100, local_only = Some True\<rparr>),
      (''ollama-codellama'',
       \<lparr>provider = ''ollama'', model_name = ''codellama'',
        capabilities = [CODE_GENERATION, DEBUGGING],
        cost_per_input_token = 0,
        cost_per_output_token = 0,
        average_latency = 7 / 2, max_context = 4096,
        reliability_score = 83 / 100, local_only = Some True\<rparr>)
     ]"

datatype registry_error = NoModelsFound TaskType | KeyError string | EmptySequence

definition get_models_for_task_type_in :: "registry \<Rightarrow> TaskType \<Rightarrow> string list" where
  "get_models_for_task_type_in reg task_type =
     map fst (filter (\<lambda>(model_id, cfg). task_type \<in> set (capabilities cfg)) reg)"

text \<open>
  Python's \<^verbatim>\<open>min(xs, key=f)\<close> and \<^verbatim>\<open>max(xs, key=f)\<close>: the key of every element is
  computed in order (a key that raises aborts the call), and the first element whose key
  is smallest (largest) is returned; an empty sequence raises. The key functions here
  subscript the registry by the model id, which raises \<^verbatim>\<open>KeyError\<close> for an unknown id.
\<close>

fun registry_keys :: "registry \<Rightarrow> (ModelConfig \<Rightarrow> rat) \<Rightarrow> string list \<Rightarrow> registry_error + (string \<times> rat) list" where
  "registry_keys reg f [] = Inr []"
| "registry_keys reg f (m # ms) =
     (case map_of reg m of
        None \<Rightarrow> Inl (KeyError m)
      | Some cfg \<Rightarrow>
          (case registry_keys reg f ms of
             Inl e \<Rightarrow> Inl e
           | Inr rest \<Rightarrow> Inr ((m, f cfg) # rest)))"

fun first_min :: "'a \<times> rat \<Rightarrow> ('a \<times> rat) list \<Rightarrow> 'a \<times> rat" where
  "first_min best [] = best"
| "first_min best (x # xs) = first_min (if snd x < snd best then x else best) xs"

fun first_max :: "'a \<times> rat \<Rightarrow> ('a \<times> rat) list \<Rightarrow> 'a \<times> rat" where
  "first_max best [] = best"
| "first_max best (x # xs) = first_max (if snd x > snd best then x else best) xs"

definition py_min :: "registry \<Rightarrow> (ModelConfig \<Rightarrow> rat) \<Rightarrow> string list \<Rightarrow> registry_error + string" where
  "py_min reg f models =
     (case registry_keys reg f models of
        Inl e \<Rightarrow> Inl e
      | Inr [] \<Rightarrow> Inl EmptySequence
      | Inr (x # xs) \<Rightarrow> Inr (fst (first_min x xs)))"

definition py_max :: "registry \<Rightarrow> (ModelConfig \<Rightarrow> rat) \<Rightarrow> string list \<Rightarrow> registry_error + string" where
  "py_max reg f models =
     (case registry_keys reg f models of
        Inl e \<Rightarrow> Inl e
      | Inr [] \<Rightarrow> Inl EmptySequence
      | Inr (x # xs) \<Rightarrow> Inr (fst (first_max x xs)))"

definition total_cost :: "ModelConfig \<Rightarrow> rat" where
  "total_cost cfg = cost_per_input_token cfg + cost_per_output_token cfg"

definition get_cheapest_model_for_task_in :: "registry \<Rightarrow> TaskType \<Rightarrow> registry_error + string" where
  "get_cheapest_model_for_task_in reg task_type =
     (let models = get_models_for_task_type_in reg task_type in
      if models = [] then Inl (NoModelsFound task_type)
      else py_min reg total_cost models)"

definition get_fastest_model_for_task_in :: "registry \<Rightarrow> TaskType \<Rightarrow> registry_error + string" where
  "get_fastest_model_for_task_in reg task_type =
     (let models = get_models_for_task_type_in reg task_type in
      if models = [] then Inl (NoModelsFound task_type)
      else py_min reg average_latency models)"

definition get_best_quality_model_for_task_in :: "registry \<Rightarrow> TaskType \<Rightarrow> registry_error + string" where
  "get_best_quality_model_for_task_in reg task_type =
     (let models = get_models_for_task_type_in reg task_type in
      if models = [] then Inl (NoModelsFound task_type)
      else py_max reg reliability_score models)"

text \<open>The functions of the module, on the registry of the module.\<close>

definition get_models_for_task_type :: "TaskType \<Rightarrow> string list" where
  "get_models_for_task_type = get_models_for_task_type_in MODEL_REGISTRY"

definition get_cheapest_model_for_task :: "TaskType \<Rightarrow> registry_error + string" where
  "get_cheapest_model_for_task = get_cheapest_model_for_task_in MODEL_REGISTRY"

definition get_fastest_model_for_task :: "TaskType \<Rightarrow> registry_error + string" where
  "get_fastest_model_for_task = get_fastest_model_for_task_in MODEL_REGISTRY"

definition get_best_quality_model_for_task :: "TaskType \<Rightarrow> registry_error + string" where
  "get_best_quality_model_for_task = get_best_quality_model_for_task_in MODEL_REGISTRY"

text \<open>The entries of a registry that declare a task type, in the order of the registry.\<close>

definition supporting :: "registry \<Rightarrow> TaskType \<Rightarrow> (string \<times> ModelConfig) list" where
  "supporting reg t = filter (\<lambda>(model_id, cfg). t \<in> set (capabilities cfg)) reg"

section \<open>Properties of the circuit breaker\<close>

lemma fetch_store [simp]: "fetch (store cb p s) p = s"
  by (simp add: fetch_def store_def)

lemma config_store [simp]: "config (store cb p s) = config cb"
  by (simp add: store_def)

lemma record_failure_closed_below:
  assumes "state (fetch cb p) = CLOSED"
    and "failure_count (fetch cb p) + 1 < failure_threshold (config cb)"
  shows "state (fetch (record_failure cb tf to p) p) = CLOSED"
    and "failure_count (fetch (record_failure cb tf to p) p) = failure_count (fetch cb p) + 1"
    and "config (record_failure cb tf to p) = config cb"
  using assms by (simp_all add: record_failure_def Let_def)

lemma record_failures_closed_below:
  "state (fetch cb p) = CLOSED \<Longrightarrow>
   failure_count (fetch cb p) + int (length ts) < failure_threshold (config cb) \<Longrightarrow>
   state (fetch (record_failures cb ts p) p) = CLOSED \<and>
   failure_count (fetch (record_failures cb ts p) p) = failure_count (fetch cb p) + int (length ts) \<and>
   config (record_failures cb ts p) = config cb"
proof (induction ts arbitrary: cb)
  case Nil
  then show ?case by simp
next
  case (Cons a ts)
  obtain tf to where a: "a = (tf, to)" by (cases a)
  let ?cb = "record_failure cb tf to p"
  from Cons.prems have lt: "failure_count (fetch cb p) + 1 < failure_threshold (config cb)"
    by simp
  note step = record_failure_closed_below [OF Cons.prems(1) lt, of tf to]
  have "failure_count (fetch ?cb p) + int (length ts) < failure_threshold (config ?cb)"
    using Cons.prems(2) step by simp
  from Cons.IH [OF step(1) this] show ?case
    using step a by simp
qed

lemma is_available_closed:
  "state (fetch cb p) = CLOSED \<Longrightarrow> fst (is_available cb now p)"
  by (simp add: is_available_def get_state_def lazy_half_open_def Let_def split: option.splits)

lemma record_failure_opens:
  assumes "state (fetch cb p) = CLOSED"
    and "failure_count (fetch cb p) + 1 \<ge> failure_threshold (config cb)"
  shows "state (fetch (record_failure cb tf to p) p) = OPEN"
    and "opened_at (fetch (record_failure cb tf to p) p) = Some to"
    and "CircuitBreakerState.timeout (fetch (record_failure cb tf to p) p) =
         CircuitBreakerConfig.timeout (config cb)"
  using assms by (simp_all add: record_failure_def Let_def)

lemma is_available_open:
  "state (fetch cb p) = OPEN \<Longrightarrow> opened_at (fetch cb p) = Some t \<Longrightarrow>
   now - t < CircuitBreakerState.timeout (fetch cb p) \<Longrightarrow> \<not> fst (is_available cb now p)"
  by (simp add: is_available_def get_state_def lazy_half_open_def Let_def split: option.splits)

lemma default_config_simps:
  "failure_threshold default_config = 5"
  "CircuitBreakerConfig.timeout default_config = 60"
  "success_threshold default_config = 2"
  "max_timeout default_config = 300"
  by (simp_all add: default_config_def)

lemma new_breaker_simps:
  "config (new_breaker cfg) = cfg"
  "fetch (new_breaker cfg) p = new_state"
  by (simp_all add: new_breaker_def fetch_def)

text \<open>
  Claim C1. Take a provider whose stored circuit state is Closed with a failure count of
  zero (in particular a provider never seen before, or a freshly reset one), and report
  consecutive failures for it, with no other call in between.
  \<^item> After fewer than \<open>failure_threshold\<close> failures the phase is still Closed and
    \<open>is_available\<close> answers true at every clock reading.
  \<^item> The \<open>failure_threshold\<close>-th failure moves the phase to Open, sets \<open>opened_at\<close>
    to the clock reading taken when opening, and sets the current timeout to the base
    timeout of the configuration; from then on \<open>is_available\<close> answers false at every
    clock reading at which the timeout has not yet elapsed since \<open>opened_at\<close> (once it
    has elapsed the lazy Half-Open transition of \<open>get_state\<close> applies).
\<close>

theorem circuit_opens_at_failure_threshold:
  assumes "state (fetch cb p) = CLOSED" and "failure_count (fetch cb p) = 0"
  shows "(int (length ts) < failure_threshold (config cb) \<longrightarrow>
            state (fetch (record_failures cb ts p) p) = CLOSED \<and>
            (\<forall>now. fst (is_available (record_failures cb ts p) now p))) \<and>
         (int (length ts) + 1 = failure_threshold (config cb) \<longrightarrow>
            (let cb' = record_failure (record_failures cb ts p) t_fail t_open p in
               state (fetch cb' p) = OPEN \<and>
               opened_at (fetch cb' p) = Some t_open \<and>
               CircuitBreakerState.timeout (fetch cb' p) = CircuitBreakerConfig.timeout (config cb) \<and>
               (\<forall>now. now - t_open < CircuitBreakerConfig.timeout (config cb) \<longrightarrow>
                      \<not> fst (is_available cb' now p))))"
proof (rule conjI; rule impI)
  assume lt: "int (length ts) < failure_threshold (config cb)"
  then have "failure_count (fetch cb p) + int (length ts) < failure_threshold (config cb)"
    using assms(2) by simp
  from record_failures_closed_below [OF assms(1) this]
  show "state (fetch (record_failures cb ts p) p) = CLOSED \<and>
        (\<forall>now. fst (is_available (record_failures cb ts p) now p))"
    by (simp add: is_available_closed)
next
  assume eq: "int (length ts) + 1 = failure_threshold (config cb)"
  let ?cb = "record_failures cb ts p"
  have "failure_count (fetch cb p) + int (length ts) < failure_threshold (config cb)"
    using assms(2) eq by simp
  from record_failures_closed_below [OF assms(1) this]
  have c: "state (fetch ?cb p) = CLOSED"
    and n: "failure_count (fetch ?cb p) = int (length ts)"
    and g: "config ?cb = config cb"
    using assms(2) by simp_all
  have ge: "failure_count (fetch ?cb p) + 1 \<ge> failure_threshold (config ?cb)"
    using n g eq by simp
  note o = record_failure_opens [OF c ge, of t_fail t_open]
  show "let cb' = record_failure ?cb t_fail t_open p in
          state (fetch cb' p) = OPEN \<and>
          opened_at (fetch cb' p) = Some t_open \<and>
          CircuitBreakerState.timeout (fetch cb' p) = CircuitBreakerConfig.timeout (config cb) \<and>
          (\<forall>now. now - t_open < CircuitBreakerConfig.timeout (config cb) \<longrightarrow>
                 \<not> fst (is_available cb' now p))"
    unfolding Let_def using o g is_available_open [OF o(1) o(2)] by simp
qed

theorem circuit_opens_at_failure_threshold_witness:
  "state (fetch (new_breaker default_config) ''groq'') = CLOSED \<and>
   failure_count (fetch (new_breaker default_config) ''groq'') = 0 \<and>
   fst (is_available
         (record_failures (new_breaker default_config)
            [(100, 100), (101, 101), (102, 102), (103, 103)] ''groq'') 104 ''groq'') \<and>
   state (fetch
           (record_failure
              (record_failures (new_breaker default_config)
                 [(100, 100), (101, 101), (102, 102), (103, 103)] ''groq'')
              104 104 ''groq'') ''groq'') = OPEN \<and>
   \<not> fst (is_available
           (record_failure
              (record_failures (new_breaker default_config)
                 [(100, 100), (101, 101), (102, 102), (103, 103)] ''groq'')
              104 104 ''groq'') 163 ''groq'')"
proof -
  have a: "state (fetch (new_breaker default_config) ''groq'') = CLOSED"
    and b: "failure_count (fetch (new_breaker default_config) ''groq'') = 0"
    by (simp_all add: new_breaker_simps new_state_def)
  from circuit_opens_at_failure_threshold
         [OF a b, of "[(100, 100), (101, 101), (102, 102), (103, 103)]" 104 104]
  show ?thesis
    using a b by (simp add: new_breaker_simps default_config_simps Let_def)
qed

lemma store_same: "states cb p = Some s \<Longrightarrow> store cb p s = cb"
  by (simp add: store_def fun_upd_idem)

lemma fetch_open_present: "state (fetch cb p) = OPEN \<Longrightarrow> states cb p = Some (fetch cb p)"
  by (auto simp: fetch_def new_state_def split: option.splits)

lemma fetch_half_open_present: "state (fetch cb p) = HALF_OPEN \<Longrightarrow> states cb p = Some (fetch cb p)"
  by (auto simp: fetch_def new_state_def split: option.splits)

lemma states_store_other: "q \<noteq> p \<Longrightarrow> states (store cb p s) q = states cb q"
  by (simp add: store_def)

lemma get_state_elapsed:
  assumes "state (fetch cb p) = OPEN" "opened_at (fetch cb p) = Some t" "t \<noteq> 0"
    "now - t \<ge> CircuitBreakerState.timeout (fetch cb p)"
  shows "get_state cb now p =
          (HALF_OPEN, store cb p ((fetch cb p)\<lparr>state := HALF_OPEN, success_count := 0\<rparr>))"
  using assms by (simp add: get_state_def lazy_half_open_def truthy_def Let_def)

lemma record_success_closed:
  assumes "state (fetch cb p) = CLOSED"
  shows "fetch (record_success cb p) p = (fetch cb p)\<lparr>failure_count := 0\<rparr>"
    and "config (record_success cb p) = config cb"
  using assms by (simp_all add: record_success_def Let_def)

lemma record_success_half_open_below:
  assumes "state (fetch cb p) = HALF_OPEN"
    "success_count (fetch cb p) + 1 < success_threshold (config cb)"
  shows "fetch (record_success cb p) p = (fetch cb p)\<lparr>success_count := success_count (fetch cb p) + 1\<rparr>"
    and "config (record_success cb p) = config cb"
  using assms by (simp_all add: record_success_def Let_def)

lemma record_success_half_open_reached:
  assumes "state (fetch cb p) = HALF_OPEN"
    "success_count (fetch cb p) + 1 \<ge> success_threshold (config cb)"
  shows "fetch (record_success cb p) p =
           (fetch cb p)\<lparr>state := CLOSED, failure_count := 0, success_count := 0,
                         timeout := CircuitBreakerConfig.timeout (config cb)\<rparr>"
    and "config (record_success cb p) = config cb"
  using assms by (simp_all add: record_success_def Let_def)

lemma record_successes_closed_clean:
  "closed_clean cb p \<Longrightarrow> closed_clean (record_successes cb n p) p \<and> config (record_successes cb n p) = config cb"
proof (induction n arbitrary: cb)
  case 0
  then show ?case by simp
next
  case (Suc n)
  from Suc.prems have c: "state (fetch cb p) = CLOSED" by (simp add: closed_clean_def)
  have "closed_clean (record_success cb p) p"
    using Suc.prems record_success_closed [OF c] by (simp add: closed_clean_def)
  from Suc.IH [OF this] show ?case
    using record_success_closed(2) [OF c] by simp
qed

lemma record_successes_half_open:
  "state (fetch cb p) = HALF_OPEN \<Longrightarrow>
   (success_count (fetch cb p) + int n < success_threshold (config cb) \<longrightarrow>
      state (fetch (record_successes cb n p) p) = HALF_OPEN \<and>
      success_count (fetch (record_successes cb n p) p) = success_count (fetch cb p) + int n) \<and>
   (0 < n \<and> success_count (fetch cb p) + int n \<ge> success_threshold (config cb) \<longrightarrow>
      closed_clean (record_successes cb n p) p) \<and>
   config (record_successes cb n p) = config cb"
proof (induction n arbitrary: cb)
  case 0
  then show ?case by simp
next
  case (Suc n)
  let ?cb = "record_success cb p"
  show ?case
  proof (cases "success_count (fetch cb p) + 1 < success_threshold (config cb)")
    case True
    note st = record_success_half_open_below [OF Suc.prems True]
    have h: "state (fetch ?cb p) = HALF_OPEN" using st(1) Suc.prems by simp
    have sc: "success_count (fetch ?cb p) = success_count (fetch cb p) + 1" using st(1) by simp
    from Suc.IH [OF h] show ?thesis
      using sc st(2) True by (cases n) (auto simp: algebra_simps)
  next
    case False
    then have ge: "success_count (fetch cb p) + 1 \<ge> success_threshold (config cb)" by simp
    note st = record_success_half_open_reached [OF Suc.prems ge]
    have "closed_clean ?cb p" using st by (simp add: closed_clean_def)
    from record_successes_closed_clean [OF this, of n] show ?thesis
      using st(2) ge by simp
  qed
qed

lemma record_failure_half_open:
  assumes "state (fetch cb p) = HALF_OPEN"
  shows "fetch (record_failure cb tf to p) p =
           (fetch cb p)\<lparr>state := OPEN, failure_count := failure_count (fetch cb p) + 1,
              last_failure_time := Some tf, opened_at := Some to,
              timeout := min (CircuitBreakerState.timeout (fetch cb p) * 2) (max_timeout (config cb))\<rparr>"
  using assms by (simp add: record_failure_def Let_def)

text \<open>
  Claim C2. For a provider whose stored phase is Open and whose \<open>opened_at\<close> is a
  (non-zero) clock reading:
  \<^item> once the clock has advanced by at least the current timeout since \<open>opened_at\<close>, the
    next \<open>get_state\<close> returns Half-Open, and the stored state is the old one with the
    phase Half-Open and the success count reset to 0.

  For a provider whose stored phase is Half-Open (with a success count that is not
  negative, as every count the breaker produces):
  \<^item> \<open>success_threshold\<close> consecutive \<open>record_success\<close> calls (the threshold being at
    least 1) leave the phase Closed with the failure count 0 and the current timeout reset
    to the base timeout;
  \<^item> as long as the successes counted stay below the threshold the phase stays Half-Open;
  \<^item> a single \<open>record_failure\<close> moves the phase back to Open, with \<open>opened_at\<close>
    renewed and the current timeout doubled and capped at \<open>max_timeout\<close>.
\<close>

theorem half_open_recovery_and_backoff:
  "(state (fetch cb p) = OPEN \<and> opened_at (fetch cb p) = Some t \<and> t \<noteq> 0 \<and>
    now - t \<ge> CircuitBreakerState.timeout (fetch cb p) \<longrightarrow>
      fst (get_state cb now p) = HALF_OPEN \<and>
      fetch (snd (get_state cb now p)) p = (fetch cb p)\<lparr>state := HALF_OPEN, success_count := 0\<rparr>) \<and>
   (state (fetch cb p) = HALF_OPEN \<and> 0 \<le> success_count (fetch cb p) \<and>
    1 \<le> success_threshold (config cb) \<longrightarrow>
      (let cb' = record_successes cb (nat (success_threshold (config cb))) p in
         state (fetch cb' p) = CLOSED \<and> failure_count (fetch cb' p) = 0 \<and>
         CircuitBreakerState.timeout (fetch cb' p) = CircuitBreakerConfig.timeout (config cb))) \<and>
   (state (fetch cb p) = HALF_OPEN \<and> success_count (fetch cb p) + int k < success_threshold (config cb) \<longrightarrow>
      state (fetch (record_successes cb k p) p) = HALF_OPEN) \<and>
   (state (fetch cb p) = HALF_OPEN \<longrightarrow>
      (let cb' = record_failure cb t_fail t_open p in
         state (fetch cb' p) = OPEN \<and> opened_at (fetch cb' p) = Some t_open \<and>
         CircuitBreakerState.timeout (fetch cb' p) =
           min (CircuitBreakerState.timeout (fetch cb p) * 2) (max_timeout (config cb))))"
proof (intro conjI impI)
  assume a: "state (fetch cb p) = OPEN \<and> opened_at (fetch cb p) = Some t \<and> t \<noteq> 0 \<and>
    now - t \<ge> CircuitBreakerState.timeout (fetch cb p)"
  then have g: "get_state cb now p =
          (HALF_OPEN, store cb p ((fetch cb p)\<lparr>state := HALF_OPEN, success_count := 0\<rparr>))"
    using get_state_elapsed [of cb p t now] by blast
  show "fst (get_state cb now p) = HALF_OPEN" by (simp add: g)
  show "fetch (snd (get_state cb now p)) p = (fetch cb p)\<lparr>state := HALF_OPEN, success_count := 0\<rparr>"
    by (simp add: g)
next
  assume a: "state (fetch cb p) = HALF_OPEN \<and> 0 \<le> success_count (fetch cb p) \<and>
    1 \<le> success_threshold (config cb)"
  then have h: "state (fetch cb p) = HALF_OPEN" by simp
  have "closed_clean (record_successes cb (nat (success_threshold (config cb))) p) p"
    using record_successes_half_open [OF h, of "nat (success_threshold (config cb))"] a by simp
  then show "let cb' = record_successes cb (nat (success_threshold (config cb))) p in
         state (fetch cb' p) = CLOSED \<and> failure_count (fetch cb' p) = 0 \<and>
         CircuitBreakerState.timeout (fetch cb' p) = CircuitBreakerConfig.timeout (config cb)"
    using record_successes_half_open [OF h, of "nat (success_threshold (config cb))"]
    by (simp add: closed_clean_def Let_def)
next
  assume a: "state (fetch cb p) = HALF_OPEN \<and> success_count (fetch cb p) + int k < success_threshold (config cb)"
  then show "state (fetch (record_successes cb k p) p) = HALF_OPEN"
    using record_successes_half_open [of cb p k] by simp
next
  assume h: "state (fetch cb p) = HALF_OPEN"
  show "let cb' = record_failure cb t_fail t_open p in
         state (fetch cb' p) = OPEN \<and> opened_at (fetch cb' p) = Some t_open \<and>
         CircuitBreakerState.timeout (fetch cb' p) =
           min (CircuitBreakerState.timeout (fetch cb p) * 2) (max_timeout (config cb))"
    by (simp add: record_failure_half_open [OF h] Let_def)
qed


theorem half_open_recovery_and_backoff_witness:
  "fst (get_state
         (record_failures (new_breaker default_config)
            [(100, 100), (101, 101), (102, 102), (103, 103), (104, 104)] ''groq'') 164 ''groq'')
     = HALF_OPEN \<and>
   state (fetch
     (record_successes
        (snd (get_state
           (record_failures (new_breaker default_config)
              [(100, 100), (101, 101), (102, 102), (103, 103), (104, 104)] ''groq'') 164 ''groq''))
        2 ''groq'') ''groq'') = CLOSED \<and>
   state (fetch
     (record_successes
        (snd (get_state
           (record_failures (new_breaker default_config)
              [(100, 100), (101, 101), (102, 102), (103, 103), (104, 104)] ''groq'') 164 ''groq''))
        1 ''groq'') ''groq'') = HALF_OPEN \<and>
   CircuitBreakerState.timeout (fetch
     (record_failure
        (snd (get_state
           (record_failures (new_breaker default_config)
              [(100, 100), (101, 101), (102, 102), (103, 103), (104, 104)] ''groq'') 164 ''groq''))
        170 170 ''groq'') ''groq'') = 120"
proof -
  let ?cb = "record_failures (new_breaker default_config)
            [(100, 100), (101, 101), (102, 102), (103, 103), (104, 104)] ''groq''"
  let ?hb = "snd (get_state ?cb 164 ''groq'')"
  have f: "fetch ?cb ''groq'' =
     \<lparr>state = OPEN, failure_count = 5, success_count = 0, last_failure_time = Some 104,
      opened_at = Some 104, timeout = 60\<rparr>"
    by (simp add: record_failure_def Let_def new_breaker_simps default_config_simps new_state_def)
  have c: "config ?cb = default_config"
    by (simp add: record_failure_def Let_def new_breaker_simps)
  have h: "fetch ?hb ''groq'' =
     \<lparr>state = HALF_OPEN, failure_count = 5, success_count = 0, last_failure_time = Some 104,
      opened_at = Some 104, timeout = 60\<rparr>"
    unfolding get_state_def Let_def snd_conv fetch_store f
    by (simp add: lazy_half_open_def truthy_def)
  have ch: "config ?hb = default_config"
    unfolding get_state_def Let_def snd_conv config_store by (rule c)
  from half_open_recovery_and_backoff [of "?cb" "''groq''" 104 164]
       half_open_recovery_and_backoff [of "?hb" "''groq''" 104 164 1 170 170]
  show ?thesis
    unfolding f h ch by (simp add: default_config_simps Let_def del: record_failures.simps)
qed

lemma is_available_fst:
  "fst (is_available cb now p) = (state (lazy_half_open now (fetch cb p)) \<noteq> OPEN)"
  by (simp add: is_available_def get_state_def Let_def)

lemma is_available_snd:
  "snd (is_available cb now p) = store cb p (lazy_half_open now (fetch cb p))"
  by (simp add: is_available_def get_state_def Let_def)

lemma lazy_half_open_stays_open:
  "state (lazy_half_open now s) = OPEN \<Longrightarrow> lazy_half_open now s = s"
  by (auto simp: lazy_half_open_def Let_def split: option.splits if_splits)

lemma unavailable_unchanged:
  assumes "\<not> fst (is_available cb now p)"
  shows "snd (is_available cb now p) = cb"
proof -
  from assms have o: "state (lazy_half_open now (fetch cb p)) = OPEN"
    by (simp add: is_available_fst)
  then have same: "lazy_half_open now (fetch cb p) = fetch cb p"
    by (rule lazy_half_open_stays_open)
  with o have "states cb p = Some (fetch cb p)"
    by (simp add: fetch_open_present)
  then show ?thesis
    by (simp add: is_available_snd same store_same)
qed

text \<open>
  Claim C10. For a provider whose stored phase is Open, whether or not the timeout has
  elapsed: \<open>record_success\<close> leaves the whole breaker unchanged, and \<open>record_failure\<close>
  changes nothing but the failure count (one more) and the last failure time of that
  provider. The phase stays Open, \<open>opened_at\<close> and the current timeout are the same, and
  so is the answer of \<open>is_available\<close> at every clock reading: the backoff window is
  neither extended nor shortened.
\<close>

theorem open_state_frame:
  assumes "state (fetch cb p) = OPEN"
  shows "record_success cb p = cb \<and>
         record_failure cb t_fail t_open p =
           store cb p ((fetch cb p)\<lparr>failure_count := failure_count (fetch cb p) + 1,
                                    last_failure_time := Some t_fail\<rparr>) \<and>
         state (fetch (record_failure cb t_fail t_open p) p) = OPEN \<and>
         opened_at (fetch (record_failure cb t_fail t_open p) p) = opened_at (fetch cb p) \<and>
         CircuitBreakerState.timeout (fetch (record_failure cb t_fail t_open p) p) =
           CircuitBreakerState.timeout (fetch cb p) \<and>
         (\<forall>now. fst (is_available (record_failure cb t_fail t_open p) now p) =
                fst (is_available cb now p))"
proof -
  from assms have pr: "states cb p = Some (fetch cb p)" by (rule fetch_open_present)
  have s: "record_success cb p = cb"
    using assms by (simp add: record_success_def Let_def store_same [OF pr])
  have f: "record_failure cb t_fail t_open p =
           store cb p ((fetch cb p)\<lparr>failure_count := failure_count (fetch cb p) + 1,
                                    last_failure_time := Some t_fail\<rparr>)"
    using assms by (simp add: record_failure_def Let_def)
  have a: "fst (is_available (record_failure cb t_fail t_open p) now p) =
           fst (is_available cb now p)" for now
    unfolding f is_available_fst
    by (simp add: lazy_half_open_def truthy_def Let_def split: option.splits)
  show ?thesis
    using s a assms unfolding f by simp
qed

theorem open_state_frame_witness:
  "state (fetch (record_failures (new_breaker default_config)
            [(100, 100), (101, 101), (102, 102), (103, 103), (104, 104)] ''groq'') ''groq'') = OPEN \<and>
   record_success (record_failures (new_breaker default_config)
            [(100, 100), (101, 101), (102, 102), (103, 103), (104, 104)] ''groq'') ''groq'' =
     record_failures (new_breaker default_config)
            [(100, 100), (101, 101), (102, 102), (103, 103), (104, 104)] ''groq'' \<and>
   opened_at (fetch (record_failure (record_failures (new_breaker default_config)
            [(100, 100), (101, 101), (102, 102), (103, 103), (104, 104)] ''groq'') 120 120 ''groq'') ''groq'')
     = Some 104 \<and>
   failure_count (fetch (record_failure (record_failures (new_breaker default_config)
            [(100, 100), (101, 101), (102, 102), (103, 103), (104, 104)] ''groq'') 120 120 ''groq'') ''groq'')
     = 6"
proof -
  let ?cb = "record_failures (new_breaker default_config)
            [(100, 100), (101, 101), (102, 102), (103, 103), (104, 104)] ''groq''"
  have f: "fetch ?cb ''groq'' =
     \<lparr>state = OPEN, failure_count = 5, success_count = 0, last_failure_time = Some 104,
      opened_at = Some 104, timeout = 60\<rparr>"
    by (simp add: record_failure_def Let_def new_breaker_simps default_config_simps new_state_def)
  have a: "state (fetch ?cb ''groq'') = OPEN" unfolding f by simp
  from open_state_frame [OF a, of 120 120] show ?thesis
    unfolding f store_def by (simp add: fetch_def)
qed

lemma available_state:
  assumes "fst (is_available cb now p)"
  shows "lazy_half_open now (fetch cb p) =
           (if state (fetch cb p) = OPEN
            then (fetch cb p)\<lparr>state := HALF_OPEN, success_count := 0\<rparr>
            else fetch cb p)"
    and "state (lazy_half_open now (fetch cb p)) \<noteq> OPEN"
  using assms
  by (auto simp: is_available_fst lazy_half_open_def Let_def split: option.splits if_splits)

lemma states_store_store:
  "states (store (store cb p s) p s') q = (if q = p then Some s' else states cb q)"
  by (simp add: store_def)

lemma call_admitted:
  assumes "fst (is_available cb now p)"
  shows "call cb now t_fail t_open p func w =
           (case func w of
              (Inr result, w') \<Rightarrow>
                (Inr result, record_success (store cb p (lazy_half_open now (fetch cb p))) p, w')
            | (Inl e, w') \<Rightarrow>
                (Inl (Raised e),
                 record_failure (store cb p (lazy_half_open now (fetch cb p))) t_fail t_open p, w'))"
  using assms by (simp add: call_def split_beta is_available_snd)

lemma record_success_effect:
  "record_success (store cb p s) p =
     store (store cb p s) p
       (if state s = HALF_OPEN then
          (if success_count s + 1 \<ge> success_threshold (config cb)
           then s\<lparr>state := CLOSED, failure_count := 0, success_count := 0,
                  timeout := CircuitBreakerConfig.timeout (config cb)\<rparr>
           else s\<lparr>success_count := success_count s + 1\<rparr>)
        else if state s = CLOSED then s\<lparr>failure_count := 0\<rparr>
        else s)"
  by (simp add: record_success_def Let_def)

lemma record_failure_effect:
  "record_failure (store cb p s) t_fail t_open p =
     store (store cb p s) p
       (if state s = HALF_OPEN then
          s\<lparr>failure_count := failure_count s + 1, last_failure_time := Some t_fail,
            state := OPEN, opened_at := Some t_open,
            timeout := min (CircuitBreakerState.timeout s * 2) (max_timeout (config cb))\<rparr>
        else if state s = CLOSED then
          (if failure_count s + 1 \<ge> failure_threshold (config cb)
           then s\<lparr>failure_count := failure_count s + 1, last_failure_time := Some t_fail,
                  state := OPEN, opened_at := Some t_open,
                  timeout := CircuitBreakerConfig.timeout (config cb)\<rparr>
           else s\<lparr>failure_count := failure_count s + 1, last_failure_time := Some t_fail\<rparr>)
        else s\<lparr>failure_count := failure_count s + 1, last_failure_time := Some t_fail\<rparr>)"
  by (simp add: record_failure_def Let_def)

text \<open>
  Claim C5. When \<open>is_available\<close> answers false, \<open>call\<close> raises the breaker-open error,
  the world is as it was (the operation has not run) and the breaker is exactly as it
  was before the call: nothing is recorded. When \<open>is_available\<close> answers true, the
  operation runs on the world. Let \<open>s\<close> be the state of the provider as the availability
  check leaves it: the stored state, or, when that was Open with its timeout elapsed,
  the stored state moved to Half-Open with a success count of 0. The configuration and
  the states of all other providers are untouched, and
  \<^item> if the operation returns, \<open>call\<close> returns its result and the success is recorded
    in the state of the provider: in Closed the failure count is reset to 0; in Half-Open
    the success count goes up by one, and when it reaches \<open>success_threshold\<close> the phase
    becomes Closed with both counts 0 and the timeout back at the base value;
  \<^item> if the operation raises, \<open>call\<close> raises the same exception and the failure is
    recorded in the state of the provider: the failure count goes up by one and the last
    failure time is set; in Half-Open the phase becomes Open with \<open>opened_at\<close> renewed
    and the timeout doubled up to \<open>max_timeout\<close>; in Closed the phase becomes Open, with
    the base timeout, when the failure count reaches \<open>failure_threshold\<close>.
\<close>

theorem call_bookkeeping:
  "(\<not> fst (is_available cb now p) \<longrightarrow>
      call cb now t_fail t_open p func w =
        (Inl (CircuitBreakerOpenError (''Circuit breaker is open for provider: '' @ p)), cb, w)) \<and>
   (fst (is_available cb now p) \<longrightarrow>
      (let s = (if state (fetch cb p) = OPEN
                then (fetch cb p)\<lparr>state := HALF_OPEN, success_count := 0\<rparr>
                else fetch cb p);
           (res, cb', w1) = call cb now t_fail t_open p func w
       in state s \<noteq> OPEN \<and> config cb' = config cb \<and>
          (\<forall>q. q \<noteq> p \<longrightarrow> states cb' q = states cb q) \<and>
          (\<forall>v w'. func w = (Inr v, w') \<longrightarrow>
             res = Inr v \<and> w1 = w' \<and>
             fetch cb' p =
               (if state s = CLOSED then s\<lparr>failure_count := 0\<rparr>
                else if success_count s + 1 \<ge> success_threshold (config cb)
                then s\<lparr>state := CLOSED, failure_count := 0, success_count := 0,
                       timeout := CircuitBreakerConfig.timeout (config cb)\<rparr>
                else s\<lparr>success_count := success_count s + 1\<rparr>)) \<and>
          (\<forall>e w'. func w = (Inl e, w') \<longrightarrow>
             res = Inl (Raised e) \<and> w1 = w' \<and>
             fetch cb' p =
               (if state s = HALF_OPEN
                then s\<lparr>failure_count := failure_count s + 1, last_failure_time := Some t_fail,
                       state := OPEN, opened_at := Some t_open,
                       timeout := min (CircuitBreakerState.timeout s * 2) (max_timeout (config cb))\<rparr>
                else if failure_count s + 1 \<ge> failure_threshold (config cb)
                then s\<lparr>failure_count := failure_count s + 1, last_failure_time := Some t_fail,
                       state := OPEN, opened_at := Some t_open,
                       timeout := CircuitBreakerConfig.timeout (config cb)\<rparr>
                else s\<lparr>failure_count := failure_count s + 1,
                       last_failure_time := Some t_fail\<rparr>))))"
proof (rule conjI; rule impI)
  assume u: "\<not> fst (is_available cb now p)"
  from unavailable_unchanged [OF u] u
  show "call cb now t_fail t_open p func w =
        (Inl (CircuitBreakerOpenError (''Circuit breaker is open for provider: '' @ p)), cb, w)"
    by (simp add: call_def split_beta)
next
  assume a: "fst (is_available cb now p)"
  let ?s = "if state (fetch cb p) = OPEN
            then (fetch cb p)\<lparr>state := HALF_OPEN, success_count := 0\<rparr>
            else fetch cb p"
  have l: "lazy_half_open now (fetch cb p) = ?s" and n: "state ?s \<noteq> OPEN"
    using available_state [OF a] by simp_all
  have ph: "state ?s = CLOSED \<or> state ?s = HALF_OPEN"
    using n by (cases "state ?s") simp_all
  obtain r w' where fw: "func w = (r, w')" by (cases "func w")
  show "let s = ?s; (res, cb', w1) = call cb now t_fail t_open p func w
       in state s \<noteq> OPEN \<and> config cb' = config cb \<and>
          (\<forall>q. q \<noteq> p \<longrightarrow> states cb' q = states cb q) \<and>
          (\<forall>v w'. func w = (Inr v, w') \<longrightarrow>
             res = Inr v \<and> w1 = w' \<and>
             fetch cb' p =
               (if state s = CLOSED then s\<lparr>failure_count := 0\<rparr>
                else if success_count s + 1 \<ge> success_threshold (config cb)
                then s\<lparr>state := CLOSED, failure_count := 0, success_count := 0,
                       timeout := CircuitBreakerConfig.timeout (config cb)\<rparr>
                else s\<lparr>success_count := success_count s + 1\<rparr>)) \<and>
          (\<forall>e w'. func w = (Inl e, w') \<longrightarrow>
             res = Inl (Raised e) \<and> w1 = w' \<and>
             fetch cb' p =
               (if state s = HALF_OPEN
                then s\<lparr>failure_count := failure_count s + 1, last_failure_time := Some t_fail,
                       state := OPEN, opened_at := Some t_open,
                       timeout := min (CircuitBreakerState.timeout s * 2) (max_timeout (config cb))\<rparr>
                else if failure_count s + 1 \<ge> failure_threshold (config cb)
                then s\<lparr>failure_count := failure_count s + 1, last_failure_time := Some t_fail,
                       state := OPEN, opened_at := Some t_open,
                       timeout := CircuitBreakerConfig.timeout (config cb)\<rparr>
                else s\<lparr>failure_count := failure_count s + 1,
                       last_failure_time := Some t_fail\<rparr>))"
  proof (cases r)
    case (Inl e)
    have c: "call cb now t_fail t_open p func w =
               (Inl (Raised e), record_failure (store cb p ?s) t_fail t_open p, w')"
      using call_admitted [OF a, of t_fail t_open func w] fw Inl l by simp
    show ?thesis
      unfolding Let_def c split_conv record_failure_effect
      using ph n fw Inl by (auto simp: states_store_store)
  next
    case (Inr v)
    have c: "call cb now t_fail t_open p func w =
               (Inr v, record_success (store cb p ?s) p, w')"
      using call_admitted [OF a, of t_fail t_open func w] fw Inr l by simp
    show ?thesis
      unfolding Let_def c split_conv record_success_effect
      using ph n fw Inr by (auto simp: states_store_store)
  qed
qed


theorem call_bookkeeping_witness:
  "\<not> fst (is_available
          (record_failures (new_breaker default_config)
             [(100, 100), (101, 101), (102, 102), (103, 103), (104, 104)] ''groq'') 110 ''groq'') \<and>
   call (record_failures (new_breaker default_config)
             [(100, 100), (101, 101), (102, 102), (103, 103), (104, 104)] ''groq'')
        110 111 111 ''groq'' (\<lambda>n::nat. (Inr n :: string + nat, Suc n)) 0 =
     (Inl (CircuitBreakerOpenError ''Circuit breaker is open for provider: groq''),
      record_failures (new_breaker default_config)
             [(100, 100), (101, 101), (102, 102), (103, 103), (104, 104)] ''groq'', 0) \<and>
   failure_count (fetch (record_failures (new_breaker default_config)
             [(100, 100), (101, 101)] ''groq'') ''groq'') = 2 \<and>
   fst (is_available (record_failures (new_breaker default_config)
             [(100, 100), (101, 101)] ''groq'') 110 ''groq'') \<and>
   fst (call (record_failures (new_breaker default_config) [(100, 100), (101, 101)] ''groq'')
          110 111 111 ''groq'' (\<lambda>n::nat. (Inr n :: string + nat, Suc n)) 0) = Inr 0 \<and>
   snd (snd (call (record_failures (new_breaker default_config) [(100, 100), (101, 101)] ''groq'')
          110 111 111 ''groq'' (\<lambda>n::nat. (Inr n :: string + nat, Suc n)) 0)) = 1 \<and>
   failure_count (fetch (fst (snd
      (call (record_failures (new_breaker default_config) [(100, 100), (101, 101)] ''groq'')
          110 111 111 ''groq'' (\<lambda>n::nat. (Inr n :: string + nat, Suc n)) 0))) ''groq'') = 0 \<and>
   fst (call (record_failures (new_breaker default_config) [(100, 100), (101, 101)] ''groq'')
          110 111 111 ''groq'' (\<lambda>n::nat. (Inl ''boom'' :: string + nat, Suc n)) 0)
     = Inl (Raised ''boom'') \<and>
   fetch (fst (snd
      (call (record_failures (new_breaker default_config) [(100, 100), (101, 101)] ''groq'')
          110 111 111 ''groq'' (\<lambda>n::nat. (Inl ''boom'' :: string + nat, Suc n)) 0))) ''groq'' =
     \<lparr>state = CLOSED, failure_count = 3, success_count = 0, last_failure_time = Some 111,
      opened_at = None, timeout = 60\<rparr> \<and>
   fst (is_available
          (record_failures (new_breaker default_config)
             [(100, 100), (101, 101), (102, 102), (103, 103), (104, 104)] ''groq'') 170 ''groq'') \<and>
   fetch (fst (snd
      (call (record_failures (new_breaker default_config)
             [(100, 100), (101, 101), (102, 102), (103, 103), (104, 104)] ''groq'')
          170 171 171 ''groq'' (\<lambda>n::nat. (Inr n :: string + nat, Suc n)) 0))) ''groq'' =
     \<lparr>state = HALF_OPEN, failure_count = 5, success_count = 1, last_failure_time = Some 104,
      opened_at = Some 104, timeout = 60\<rparr>"
proof -
  let ?cb5 = "record_failures (new_breaker default_config)
            [(100, 100), (101, 101), (102, 102), (103, 103), (104, 104)] ''groq''"
  let ?cb2 = "record_failures (new_breaker default_config) [(100, 100), (101, 101)] ''groq''"
  let ?ok = "\<lambda>n::nat. (Inr n :: string + nat, Suc n)"
  let ?boom = "\<lambda>n::nat. (Inl ''boom'' :: string + nat, Suc n)"
  have f5: "fetch ?cb5 ''groq'' =
     \<lparr>state = OPEN, failure_count = 5, success_count = 0, last_failure_time = Some 104,
      opened_at = Some 104, timeout = 60\<rparr>"
    by (simp add: record_failure_def Let_def new_breaker_simps default_config_simps new_state_def)
  have f2: "fetch ?cb2 ''groq'' =
     \<lparr>state = CLOSED, failure_count = 2, success_count = 0, last_failure_time = Some 101,
      opened_at = None, timeout = 60\<rparr>"
    by (simp add: record_failure_def Let_def new_breaker_simps default_config_simps new_state_def)
  have c5: "config ?cb5 = default_config" and c2: "config ?cb2 = default_config"
    by (simp_all add: record_failure_def Let_def new_breaker_simps)
  have u: "\<not> fst (is_available ?cb5 110 ''groq'')"
    unfolding is_available_fst f5 by (simp add: lazy_half_open_def truthy_def)
  have a5: "fst (is_available ?cb5 170 ''groq'')"
    unfolding is_available_fst f5 by (simp add: lazy_half_open_def truthy_def)
  have a2: "fst (is_available ?cb2 110 ''groq'')"
    unfolding is_available_fst f2 by (simp add: lazy_half_open_def)
  note rej = call_bookkeeping [of "?cb5" 110 "''groq''" 111 111 ?ok 0,
               THEN conjunct1, THEN mp, OF u]
  note ok2 = call_bookkeeping [of "?cb2" 110 "''groq''" 111 111 ?ok 0,
               THEN conjunct2, THEN mp, OF a2, unfolded f2 c2 Let_def]
  note boom2 = call_bookkeeping [of "?cb2" 110 "''groq''" 111 111 ?boom 0,
               THEN conjunct2, THEN mp, OF a2, unfolded f2 c2 Let_def]
  note ok5 = call_bookkeeping [of "?cb5" 170 "''groq''" 171 171 ?ok 0,
               THEN conjunct2, THEN mp, OF a5, unfolded f5 c5 Let_def]
  have r1: "fst (call ?cb2 110 111 111 ''groq'' ?ok 0) = Inr 0"
    "snd (snd (call ?cb2 110 111 111 ''groq'' ?ok 0)) = 1"
    "failure_count (fetch (fst (snd (call ?cb2 110 111 111 ''groq'' ?ok 0))) ''groq'') = 0"
    using ok2 by (simp_all add: split_beta default_config_simps del: record_failures.simps)
  have r2: "fst (call ?cb2 110 111 111 ''groq'' ?boom 0) = Inl (Raised ''boom'')"
    "fetch (fst (snd (call ?cb2 110 111 111 ''groq'' ?boom 0))) ''groq'' =
       \<lparr>state = CLOSED, failure_count = 3, success_count = 0, last_failure_time = Some 111,
        opened_at = None, timeout = 60\<rparr>"
    using boom2 by (simp_all add: split_beta default_config_simps del: record_failures.simps)
  have r3: "fetch (fst (snd (call ?cb5 170 171 171 ''groq'' ?ok 0))) ''groq'' =
     \<lparr>state = HALF_OPEN, failure_count = 5, success_count = 1, last_failure_time = Some 104,
      opened_at = Some 104, timeout = 60\<rparr>"
    using ok5 by (simp add: split_beta default_config_simps del: record_failures.simps)
  have f2c: "failure_count (fetch ?cb2 ''groq'') = 2" unfolding f2 by simp
  from rej have r0: "call ?cb5 110 111 111 ''groq'' ?ok 0 =
     (Inl (CircuitBreakerOpenError ''Circuit breaker is open for provider: groq''), ?cb5, 0)"
    by (simp del: record_failures.simps)
  show ?thesis
    using u r0 f2c a2 r1 r2 a5 r3 by (intro conjI)
qed

section \<open>Properties of the rate limiter\<close>

lemma in_window:
  assumes "0 < window_seconds rl" "0 \<le> t" "window_start_of rl (py_int t) = ws"
  shows "of_int ws \<le> t" and "t < of_int (ws + window_seconds rl)"
proof -
  let ?W = "window_seconds rl"
  have p: "py_int t = \<lfloor>t\<rfloor>" using assms(2) by (simp add: py_int_def)
  have m: "0 \<le> \<lfloor>t\<rfloor> mod ?W" "\<lfloor>t\<rfloor> mod ?W < ?W" using assms(1) by simp_all
  have ws: "ws = \<lfloor>t\<rfloor> - \<lfloor>t\<rfloor> mod ?W" using assms(3) p by (simp add: window_start_of_def)
  have "ws \<le> \<lfloor>t\<rfloor>" using ws m by simp
  then show "of_int ws \<le> t" by (simp add: le_floor_iff)
  have "\<lfloor>t\<rfloor> < ws + ?W" using ws m by simp
  then show "t < of_int (ws + ?W)" by (simp only: floor_less_iff)
qed

lemma redis_get_counter:
  "counter_is r k c bound \<Longrightarrow> t < bound \<Longrightarrow>
   (case redis_get r t k of None \<Rightarrow> 0 | Some v \<Rightarrow> v) = c"
  by (auto simp: counter_is_def redis_get_def redis_live_def split: option.splits)

lemma incr_expire_counter:
  assumes "counter_is r k c bound" "t < bound" "0 < W"
  shows "redis_expire (redis_incr r t k) t k W = r(k \<mapsto> (c + 1, Some (t + W)))"
  using assms
  by (auto simp: counter_is_def redis_incr_def redis_expire_def redis_live_def
           split: option.splits)

lemma check_limit_step:
  assumes W: "0 < window_seconds rl" and t: "0 \<le> t" "window_start_of rl (py_int t) = ws"
    and inv: "counter_is r (rate_key ident is_demo ws) c (of_int (ws + window_seconds rl))"
  shows "check_limit rl r t ident is_demo is_admin =
           (verdict (tier_limit rl is_demo is_admin) c (ws + window_seconds rl),
            if c \<ge> tier_limit rl is_demo is_admin then r
            else r(rate_key ident is_demo ws \<mapsto> (c + 1, Some (t + of_int (window_seconds rl)))))"
proof -
  note w = in_window [OF W t]
  have g: "(case redis_get r t (rate_key ident is_demo ws) of None \<Rightarrow> 0 | Some v \<Rightarrow> v) = c"
    using redis_get_counter [OF inv w(2)] .
  have W': "(0::real) < of_int (window_seconds rl)" using W by simp
  show ?thesis
    using g incr_expire_counter [OF inv w(2) W']
    by (simp add: check_limit_def check_limit_read_def check_limit_finish_def Let_def t(2) verdict_def)
qed

lemma counter_is_after:
  assumes W: "0 < window_seconds rl" and t: "0 \<le> t" "window_start_of rl (py_int t) = ws"
  shows "counter_is (r(k \<mapsto> (c, Some (t + of_int (window_seconds rl))))) k c (of_int (ws + window_seconds rl))"
  using in_window(1) [OF W t] by (simp add: counter_is_def)

lemma check_limits_run:
  assumes W: "0 < window_seconds rl"
  shows "\<forall>t \<in> set ts. 0 \<le> t \<and> window_start_of rl (py_int t) = ws \<Longrightarrow>
     counter_is r (rate_key ident is_demo ws) c (of_int (ws + window_seconds rl)) \<Longrightarrow>
     length (fst (check_limits rl r ts ident is_demo is_admin)) = length ts \<and>
     (\<forall>k < length ts. fst (check_limits rl r ts ident is_demo is_admin) ! k =
        verdict (tier_limit rl is_demo is_admin) (c + int k) (ws + window_seconds rl))"
proof (induction ts arbitrary: r c)
  case Nil
  then show ?case by simp
next
  case (Cons t ts)
  let ?L = "tier_limit rl is_demo is_admin"
  let ?k = "rate_key ident is_demo ws"
  let ?r' = "if c \<ge> ?L then r else r(?k \<mapsto> (c + 1, Some (t + of_int (window_seconds rl))))"
  let ?c' = "if c \<ge> ?L then c else c + 1"
  from Cons.prems(1) have t: "0 \<le> t" "window_start_of rl (py_int t) = ws" by simp_all
  have step: "check_limit rl r t ident is_demo is_admin = (verdict ?L c (ws + window_seconds rl), ?r')"
    using check_limit_step [OF W t Cons.prems(2)] .
  have inv': "counter_is ?r' ?k ?c' (of_int (ws + window_seconds rl))"
    using Cons.prems(2) counter_is_after [OF W t] by simp
  have rest: "\<forall>t \<in> set ts. 0 \<le> t \<and> window_start_of rl (py_int t) = ws"
    using Cons.prems(1) by simp
  note ih = Cons.IH [OF rest inv']
  have run: "fst (check_limits rl r (t # ts) ident is_demo is_admin) =
        verdict ?L c (ws + window_seconds rl) # fst (check_limits rl ?r' ts ident is_demo is_admin)"
    by (simp add: step split_beta)
  have shift: "verdict ?L (?c' + int k) (ws + window_seconds rl) =
               verdict ?L (c + int (Suc k)) (ws + window_seconds rl)" for k
    by (simp add: verdict_def)
  show ?case
  proof (intro conjI allI impI)
    show "length (fst (check_limits rl r (t # ts) ident is_demo is_admin)) = length (t # ts)"
      unfolding run using ih by simp
  next
    fix k assume "k < length (t # ts)"
    then show "fst (check_limits rl r (t # ts) ident is_demo is_admin) ! k =
        verdict ?L (c + int k) (ws + window_seconds rl)"
      unfolding run using ih shift by (cases k) simp_all
  qed
qed


lemma check_limits_append:
  "check_limits rl r (xs @ ys) ident is_demo is_admin =
     (fst (check_limits rl r xs ident is_demo is_admin) @
      fst (check_limits rl (snd (check_limits rl r xs ident is_demo is_admin)) ys ident is_demo is_admin),
      snd (check_limits rl (snd (check_limits rl r xs ident is_demo is_admin)) ys ident is_demo is_admin))"
  by (induction xs arbitrary: r) (simp_all add: split_beta)

lemma check_limits_counter:
  assumes W: "0 < window_seconds rl"
  shows "\<forall>t \<in> set ts. 0 \<le> t \<and> window_start_of rl (py_int t) = ws \<Longrightarrow>
     counter_is r (rate_key ident is_demo ws) c (of_int (ws + window_seconds rl)) \<Longrightarrow>
     c + int (length ts) \<le> tier_limit rl is_demo is_admin \<Longrightarrow>
     counter_is (snd (check_limits rl r ts ident is_demo is_admin)) (rate_key ident is_demo ws)
       (c + int (length ts)) (of_int (ws + window_seconds rl))"
proof (induction ts arbitrary: r c)
  case Nil
  then show ?case by simp
next
  case (Cons t ts)
  let ?L = "tier_limit rl is_demo is_admin"
  let ?k = "rate_key ident is_demo ws"
  let ?r' = "r(?k \<mapsto> (c + 1, Some (t + of_int (window_seconds rl))))"
  from Cons.prems(1) have t: "0 \<le> t" "window_start_of rl (py_int t) = ws" by simp_all
  from Cons.prems(3) have lt: "\<not> c \<ge> ?L" by simp
  have step: "check_limit rl r t ident is_demo is_admin = (verdict ?L c (ws + window_seconds rl), ?r')"
    using check_limit_step [OF W t Cons.prems(2), of is_admin] lt by simp
  have inv': "counter_is ?r' ?k (c + 1) (of_int (ws + window_seconds rl))"
    using counter_is_after [OF W t] by simp
  have rest: "\<forall>t \<in> set ts. 0 \<le> t \<and> window_start_of rl (py_int t) = ws"
    using Cons.prems(1) by simp
  have le: "c + 1 + int (length ts) \<le> ?L" using Cons.prems(3) by simp
  have run: "snd (check_limits rl r (t # ts) ident is_demo is_admin) =
        snd (check_limits rl ?r' ts ident is_demo is_admin)"
    by (simp add: step split_beta)
  have eq: "c + int (length (t # ts)) = c + 1 + int (length ts)" by simp
  show ?case
    unfolding run eq by (rule Cons.IH [OF rest inv' le])
qed

text \<open>
  Claim C3. Let the store hold no entry under the key of an identifier for a window, and
  let the identifier make a sequence of \<open>check_limit\<close> calls, one after the other, at
  (non-negative) clock readings inside that window. With \<open>limit\<close> the limit of its tier:
  \<^item> the call number \<open>k\<close> (counted from 0) with \<open>k < limit\<close> is allowed with
    \<open>remaining = limit - k - 1\<close>, which goes down by one per call and is 0 at the call
    number \<open>limit - 1\<close>, and after it the store holds the count \<open>k + 1\<close> under the key,
    expiring one window length after the call;
  \<^item> every later call, the call number \<open>limit\<close> first, is rejected with
    \<open>remaining = 0\<close>;
  \<^item> every call returns \<open>reset_at = window_start + window_seconds\<close>, where
    \<open>window_start = now - (now mod window_seconds)\<close>.
\<close>

theorem check_limit_fixed_window:
  assumes "0 < window_seconds rl"
    and "\<forall>t \<in> set ts. 0 \<le> t \<and> window_start_of rl (py_int t) = ws"
    and "r (rate_key ident is_demo ws) = None"
  shows "\<forall>k < length ts.
           fst (check_limits rl r ts ident is_demo is_admin) ! k =
             (if int k < tier_limit rl is_demo is_admin
              then (True, tier_limit rl is_demo is_admin - int k - 1, ws + window_seconds rl)
              else (False, 0, ws + window_seconds rl)) \<and>
           (int k < tier_limit rl is_demo is_admin \<longrightarrow>
              snd (check_limits rl r (take (Suc k) ts) ident is_demo is_admin)
                  (rate_key ident is_demo ws) =
                Some (int k + 1, Some (ts ! k + of_int (window_seconds rl))))"
proof (intro allI impI conjI)
  fix k assume k: "k < length ts"
  let ?key = "rate_key ident is_demo ws"
  let ?L = "tier_limit rl is_demo is_admin"
  let ?bound = "of_int (ws + window_seconds rl) :: real"
  have inv: "counter_is r ?key 0 ?bound"
    using assms(3) by (simp add: counter_is_def)
  from check_limits_run [OF assms(1) assms(2) inv, of is_admin] k
  show "fst (check_limits rl r ts ident is_demo is_admin) ! k =
             (if int k < ?L then (True, ?L - int k - 1, ws + window_seconds rl)
              else (False, 0, ws + window_seconds rl))"
    by (auto simp: verdict_def)
  assume lt: "int k < ?L"
  let ?xs = "take k ts"
  have tk: "take (Suc k) ts = ?xs @ [ts ! k]"
    using k by (rule take_Suc_conv_app_nth)
  have pre: "\<forall>t \<in> set ?xs. 0 \<le> t \<and> window_start_of rl (py_int t) = ws"
    using assms(2) by (meson in_set_takeD)
  have len: "length ?xs = k" using k by simp
  have "counter_is (snd (check_limits rl r ?xs ident is_demo is_admin)) ?key (0 + int (length ?xs)) ?bound"
    using lt len by (intro check_limits_counter [OF assms(1) pre inv]) simp
  then have inv_k: "counter_is (snd (check_limits rl r ?xs ident is_demo is_admin)) ?key (int k) ?bound"
    unfolding len by simp
  have t: "0 \<le> ts ! k" "window_start_of rl (py_int (ts ! k)) = ws"
    using assms(2) k by (simp_all add: nth_mem)
  have "snd (check_limits rl r (take (Suc k) ts) ident is_demo is_admin) =
        snd (check_limit rl (snd (check_limits rl r ?xs ident is_demo is_admin)) (ts ! k) ident is_demo is_admin)"
    unfolding tk check_limits_append by (simp add: split_beta)
  also have "\<dots> = (snd (check_limits rl r ?xs ident is_demo is_admin))
                    (?key \<mapsto> (int k + 1, Some (ts ! k + of_int (window_seconds rl))))"
    using check_limit_step [OF assms(1) t inv_k, of is_admin] lt by simp
  finally show "snd (check_limits rl r (take (Suc k) ts) ident is_demo is_admin) ?key =
                Some (int k + 1, Some (ts ! k + of_int (window_seconds rl)))"
    by simp
qed

theorem check_limit_fixed_window_witness:
  "fst (check_limits (RateLimiter_init 100 2 1000) Map.empty [14401 / 2, 7201, 7300]
         ''203.0.113.7'' True False) ! 0 = (True, 1, 10800) \<and>
   fst (check_limits (RateLimiter_init 100 2 1000) Map.empty [14401 / 2, 7201, 7300]
         ''203.0.113.7'' True False) ! 1 = (True, 0, 10800) \<and>
   fst (check_limits (RateLimiter_init 100 2 1000) Map.empty [14401 / 2, 7201, 7300]
         ''203.0.113.7'' True False) ! 2 = (False, 0, 10800) \<and>
   snd (check_limits (RateLimiter_init 100 2 1000) Map.empty (take 2 [14401 / 2, 7201, 7300])
         ''203.0.113.7'' True False) (rate_key ''203.0.113.7'' True 7200) = Some (2, Some 10801)"
proof -
  let ?rl = "RateLimiter_init 100 2 1000"
  have W: "0 < window_seconds ?rl" by (simp add: RateLimiter_init_def)
  have ts: "\<forall>t \<in> set [14401 / 2, 7201, 7300 :: real]. 0 \<le> t \<and> window_start_of ?rl (py_int t) = 7200"
    by (simp add: RateLimiter_init_def window_start_of_def py_int_def)
  have e: "(Map.empty :: int redis) (rate_key ''203.0.113.7'' True 7200) = None" by simp
  have L: "tier_limit ?rl True False = 2" by (simp add: tier_limit_def RateLimiter_init_def)
  have Ws: "window_seconds ?rl = 3600" by (simp add: RateLimiter_init_def)
  note inst = check_limit_fixed_window
    [OF W ts, where is_admin = False and is_demo = True and ident = "''203.0.113.7''"
       and r = "Map.empty", unfolded L Ws, rule_format]
  have k: "(0::nat) < length [14401 / 2, 7201, 7300 :: real]"
    "(1::nat) < length [14401 / 2, 7201, 7300 :: real]"
    "(2::nat) < length [14401 / 2, 7201, 7300 :: real]" by simp_all
  from inst [OF _ k(1)] inst [OF _ k(2)] inst [OF _ k(3)]
  show ?thesis by (simp add: numeral_2_eq_2 del: check_limits.simps)
qed

lemma read_counter:
  assumes W: "0 < window_seconds rl" and t: "0 \<le> t" "window_start_of rl (py_int t) = ws"
    and inv: "counter_is r (rate_key ident is_demo ws) c (of_int (ws + window_seconds rl))"
  shows "check_limit_read rl r t ident is_demo is_admin =
           \<lparr>pc_limit = tier_limit rl is_demo is_admin, pc_key = rate_key ident is_demo ws,
            pc_current_count = c, pc_reset_at = ws + window_seconds rl\<rparr>"
  using redis_get_counter [OF inv in_window(2) [OF W t]]
  by (simp add: check_limit_read_def Let_def t(2))

lemma finish_counter:
  assumes W: "0 < window_seconds rl" and t: "0 \<le> t" "window_start_of rl (py_int t) = ws"
    and inv: "counter_is r k c' (of_int (ws + window_seconds rl))"
  shows "check_limit_finish rl r t \<lparr>pc_limit = L, pc_key = k, pc_current_count = c, pc_reset_at = ra\<rparr> =
           (verdict L c ra,
            if c \<ge> L then r else r(k \<mapsto> (c' + 1, Some (t + of_int (window_seconds rl)))))"
proof -
  have W': "(0::real) < of_int (window_seconds rl)" using W by simp
  show ?thesis
    using incr_expire_counter [OF inv in_window(2) [OF W t] W']
    by (simp add: check_limit_finish_def Let_def verdict_def)
qed

text \<open>
  Claim C9, as the code has it. In \<open>check_limit\<close> the increment and the expiry are one
  unit (one pipeline, executed in one step), but the read of the current count is a
  separate store operation that comes before. For two calls on the same identifier in
  the same window, with the store holding the count \<open>c\<close>:
  \<^item> when the second call starts after the first has returned, the first is answered
    from the count \<open>c\<close> and the second from the count \<open>c + 1\<close>;
  \<^item> when both reads are served before either pipeline, both calls are answered from the
    same count \<open>c\<close>: both are allowed when \<open>c < limit\<close>, also when \<open>c = limit - 1\<close>,
    and the counter ends at \<open>c + 2\<close> (no increment is lost).
\<close>

theorem overlapping_calls_share_the_count:
  assumes W: "0 < window_seconds rl"
    and ts: "\<forall>t \<in> {fst ta, snd ta, fst tb, snd tb}. 0 \<le> t \<and> window_start_of rl (py_int t) = ws"
    and inv: "counter_is r (rate_key ident is_demo ws) c (of_int (ws + window_seconds rl))"
  shows "check_limit_finish rl r now pc =
           (if pc_current_count pc \<ge> pc_limit pc then ((False, 0, pc_reset_at pc), r)
            else ((True, pc_limit pc - pc_current_count pc - 1, pc_reset_at pc),
                  redis_expire (redis_incr r now (pc_key pc)) now (pc_key pc)
                    (of_int (window_seconds rl)))) \<and>
         fst (check_limits rl r [fst ta, fst tb] ident is_demo is_admin) =
           [verdict (tier_limit rl is_demo is_admin) c (ws + window_seconds rl),
            verdict (tier_limit rl is_demo is_admin) (c + 1) (ws + window_seconds rl)] \<and>
         check_limit_overlapped rl r ta tb ident is_demo is_admin =
           ((verdict (tier_limit rl is_demo is_admin) c (ws + window_seconds rl),
             verdict (tier_limit rl is_demo is_admin) c (ws + window_seconds rl)),
            if c \<ge> tier_limit rl is_demo is_admin then r
            else r(rate_key ident is_demo ws \<mapsto> (c + 2, Some (snd tb + of_int (window_seconds rl)))))"
proof (intro conjI)
  show "check_limit_finish rl r now pc =
           (if pc_current_count pc \<ge> pc_limit pc then ((False, 0, pc_reset_at pc), r)
            else ((True, pc_limit pc - pc_current_count pc - 1, pc_reset_at pc),
                  redis_expire (redis_incr r now (pc_key pc)) now (pc_key pc)
                    (of_int (window_seconds rl))))"
    by (simp add: check_limit_finish_def Let_def)
next
  let ?L = "tier_limit rl is_demo is_admin"
  have seq: "\<forall>t \<in> set [fst ta, fst tb]. 0 \<le> t \<and> window_start_of rl (py_int t) = ws"
    using ts by simp
  from check_limits_run [OF W seq inv, of is_admin]
  have len: "length (fst (check_limits rl r [fst ta, fst tb] ident is_demo is_admin)) = 2"
    and n0: "fst (check_limits rl r [fst ta, fst tb] ident is_demo is_admin) ! 0 =
               verdict ?L c (ws + window_seconds rl)"
    and n1: "fst (check_limits rl r [fst ta, fst tb] ident is_demo is_admin) ! 1 =
               verdict ?L (c + 1) (ws + window_seconds rl)"
    by (simp_all del: check_limits.simps)
  show "fst (check_limits rl r [fst ta, fst tb] ident is_demo is_admin) =
           [verdict ?L c (ws + window_seconds rl), verdict ?L (c + 1) (ws + window_seconds rl)]"
    using len n0 n1 by (intro nth_equalityI) (auto simp: less_Suc_eq numeral_2_eq_2 simp del: check_limits.simps)
next
  let ?L = "tier_limit rl is_demo is_admin"
  let ?k = "rate_key ident is_demo ws"
  let ?R = "ws + window_seconds rl"
  let ?pc = "\<lparr>pc_limit = ?L, pc_key = ?k, pc_current_count = c, pc_reset_at = ?R\<rparr>"
  let ?r1 = "if c \<ge> ?L then r else r(?k \<mapsto> (c + 1, Some (snd ta + of_int (window_seconds rl))))"
  have t1: "0 \<le> fst ta" "window_start_of rl (py_int (fst ta)) = ws"
    and t2: "0 \<le> fst tb" "window_start_of rl (py_int (fst tb)) = ws"
    and t3: "0 \<le> snd ta" "window_start_of rl (py_int (snd ta)) = ws"
    and t4: "0 \<le> snd tb" "window_start_of rl (py_int (snd tb)) = ws"
    using ts by simp_all
  have pa: "check_limit_read rl r (fst ta) ident is_demo is_admin = ?pc"
    by (rule read_counter [OF W t1 inv])
  have pb: "check_limit_read rl r (fst tb) ident is_demo is_admin = ?pc"
    by (rule read_counter [OF W t2 inv])
  have fa: "check_limit_finish rl r (snd ta) ?pc = (verdict ?L c ?R, ?r1)"
    by (rule finish_counter [OF W t3 inv])
  have inv1: "counter_is ?r1 ?k (if c \<ge> ?L then c else c + 1) (of_int ?R)"
    using inv counter_is_after [OF W t3] by simp
  have fb: "check_limit_finish rl ?r1 (snd tb) ?pc =
              (verdict ?L c ?R,
               if c \<ge> ?L then r else r(?k \<mapsto> (c + 2, Some (snd tb + of_int (window_seconds rl)))))"
    using finish_counter [OF W t4 inv1, of ?L c ?R] by (simp add: algebra_simps)
  show "check_limit_overlapped rl r ta tb ident is_demo is_admin =
           ((verdict ?L c ?R, verdict ?L c ?R),
            if c \<ge> ?L then r
            else r(?k \<mapsto> (c + 2, Some (snd tb + of_int (window_seconds rl)))))"
    unfolding check_limit_overlapped_def pa pb Let_def fa split_conv fb by simp
qed

theorem overlapping_calls_share_the_count_witness:
  "check_limit_overlapped (RateLimiter_init 100 5 1000) Map.empty (7200, 7202) (7201, 7203)
      ''203.0.113.7'' True False =
     (((True, 4, 10800), (True, 4, 10800)),
      (Map.empty :: int redis)(rate_key ''203.0.113.7'' True 7200 \<mapsto> (2, Some 10803))) \<and>
   fst (check_limits (RateLimiter_init 100 5 1000) Map.empty [7200, 7201]
          ''203.0.113.7'' True False) = [(True, 4, 10800), (True, 3, 10800)]"
proof -
  let ?rl = "RateLimiter_init 100 5 1000"
  have W: "0 < window_seconds ?rl" by (simp add: RateLimiter_init_def)
  have ts: "\<forall>t \<in> {fst (7200, 7202), snd (7200, 7202), fst (7201, 7203), snd (7201, 7203 :: real)}.
              0 \<le> t \<and> window_start_of ?rl (py_int t) = 7200"
    by (simp add: RateLimiter_init_def window_start_of_def py_int_def)
  have inv: "counter_is (Map.empty :: int redis) (rate_key ''203.0.113.7'' True 7200) 0
               (of_int (7200 + window_seconds ?rl))"
    by (simp add: counter_is_def)
  have L: "tier_limit ?rl True False = 5" by (simp add: tier_limit_def RateLimiter_init_def)
  have Ws: "window_seconds ?rl = 3600" by (simp add: RateLimiter_init_def)
  note inst = overlapping_calls_share_the_count
    [OF W ts inv, where is_admin = False, THEN conjunct2, unfolded L Ws]
  from inst show ?thesis
    by (simp add: verdict_def del: check_limits.simps)
qed

text \<open>
  Claim C9 as stated fails: with a limit of 1 and an empty store, two overlapping calls
  both read the count 0, both are allowed, and the counter ends at 2.
\<close>

theorem overlapping_calls_both_allowed:
  "tier_limit (RateLimiter_init 100 1 1000) True False = 1 \<and>
   pc_current_count (check_limit_read (RateLimiter_init 100 1 1000) Map.empty 7200 ''203.0.113.7'' True False) = 0 \<and>
   pc_current_count (check_limit_read (RateLimiter_init 100 1 1000) Map.empty 7201 ''203.0.113.7'' True False) = 0 \<and>
   check_limit_overlapped (RateLimiter_init 100 1 1000) Map.empty (7200, 7202) (7201, 7203)
          ''203.0.113.7'' True False =
     (((True, 0, 10800), (True, 0, 10800)),
      (Map.empty :: int redis)(rate_key ''203.0.113.7'' True 7200 \<mapsto> (2, Some 10803)))"
  by (simp add: check_limit_overlapped_def check_limit_read_def check_limit_finish_def Let_def
        tier_limit_def RateLimiter_init_def window_start_of_def py_int_def
        redis_get_def redis_incr_def redis_expire_def redis_live_def)

section \<open>Properties of the execution mode presets\<close>

text \<open>
  Claim C8. The dictionary of presets has exactly the keys fast, balanced and
  best\_quality. Their \<open>max_parallel_executions\<close> do not decrease in that order, nor do
  their \<open>accuracy_requirement\<close>s; and if fast has a cost limit, it is strictly below the
  cost limit of every other preset that has one.
\<close>

theorem preset_ordering:
  "\<exists>fast balanced best_quality.
     map_of EXECUTION_MODE_CONFIGS ''fast'' = Some fast \<and>
     map_of EXECUTION_MODE_CONFIGS ''balanced'' = Some balanced \<and>
     map_of EXECUTION_MODE_CONFIGS ''best_quality'' = Some best_quality \<and>
     map fst EXECUTION_MODE_CONFIGS = [''fast'', ''balanced'', ''best_quality''] \<and>
     max_parallel_executions fast \<le> max_parallel_executions balanced \<and>
     max_parallel_executions balanced \<le> max_parallel_executions best_quality \<and>
     accuracy_requirement fast \<le> accuracy_requirement balanced \<and>
     accuracy_requirement balanced \<le> accuracy_requirement best_quality \<and>
     (\<forall>c. cost_limit fast = Some c \<longrightarrow>
        (\<forall>(name, cfg) \<in> set EXECUTION_MODE_CONFIGS.
           name \<noteq> ''fast'' \<longrightarrow> (\<forall>c'. cost_limit cfg = Some c' \<longrightarrow> c < c')))"
  by (simp add: EXECUTION_MODE_CONFIGS_def)

theorem preset_ordering_witness:
  "\<exists>fast balanced.
     map_of EXECUTION_MODE_CONFIGS ''fast'' = Some fast \<and>
     (''balanced'', balanced) \<in> set EXECUTION_MODE_CONFIGS \<and>
     cost_limit fast = Some 1 \<and> cost_limit balanced = Some 5 \<and>
     ''balanced'' \<noteq> ''fast'' \<and> (1::rat) < 5"
  using preset_ordering by (simp add: EXECUTION_MODE_CONFIGS_def)

section \<open>Properties of the health checker\<close>

lemma build_statuses_lookup:
  "build_statuses utcnow m (zip ps (map check ps)) p =
     (if p \<in> set ps
      then Some (case check p of Inl e \<Rightarrow> synthetic_down utcnow e | Inr st \<Rightarrow> st)
      else m p)"
  by (induction ps arbitrary: m) (auto split: sum.splits)

lemma check_all_providers_of_lookup:
  "check_all_providers_of endpoints check utcnow p =
     (if p \<in> fst ` set endpoints
      then Some (case check p of Inl e \<Rightarrow> synthetic_down utcnow e | Inr st \<Rightarrow> st)
      else None)"
  unfolding check_all_providers_of_def Let_def build_statuses_lookup by simp

lemma check_all_providers_of_dom:
  "dom (check_all_providers_of endpoints check utcnow) = fst ` set endpoints"
  by (auto simp: dom_def check_all_providers_of_lookup)

lemma check_all_providers_of_entries:
  assumes "distinct (map fst endpoints)"
  shows "dom (check_all_providers_of endpoints check utcnow) = fst ` set endpoints \<and>
         card (dom (check_all_providers_of endpoints check utcnow)) = length endpoints \<and>
         (\<forall>p \<in> fst ` set endpoints.
            (\<forall>e. check p = Inl e \<longrightarrow>
               check_all_providers_of endpoints check utcnow p =
                 Some \<lparr>status = ''down'', last_check = utcnow, response_time_ms = None,
                       error_message = Some e\<rparr>) \<and>
            (\<forall>st. check p = Inr st \<longrightarrow>
               check_all_providers_of endpoints check utcnow p = Some st))"
proof (intro conjI ballI)
  show d: "dom (check_all_providers_of endpoints check utcnow) = fst ` set endpoints"
    by (rule check_all_providers_of_dom)
  have "card (fst ` set endpoints) = length endpoints"
    using assms distinct_card [of "map fst endpoints"] by simp
  then show "card (dom (check_all_providers_of endpoints check utcnow)) = length endpoints"
    by (simp add: d)
next
  fix p assume "p \<in> fst ` set endpoints"
  then show "\<forall>e. check p = Inl e \<longrightarrow>
               check_all_providers_of endpoints check utcnow p =
                 Some \<lparr>status = ''down'', last_check = utcnow, response_time_ms = None,
                       error_message = Some e\<rparr>"
    by (simp add: check_all_providers_of_lookup synthetic_down_def)
next
  fix p assume "p \<in> fst ` set endpoints"
  then show "\<forall>st. check p = Inr st \<longrightarrow>
               check_all_providers_of endpoints check utcnow p = Some st"
    by (simp add: check_all_providers_of_lookup)
qed

text \<open>
  Claim C7. Whatever the checks of the single providers do, \<open>check_all_providers\<close>
  returns a dictionary (it is a total function: it does not raise) whose keys are exactly
  the registered providers, one entry for each. The entry of a provider whose check
  raised is the synthetic status: down, no response time, and the message of the
  exception as error message. The entry of every provider whose check returned is the
  status that check returned.
\<close>

theorem check_all_providers_isolates_failures:
  "dom (check_all_providers check utcnow) = fst ` set HEALTH_CHECK_ENDPOINTS \<and>
   card (dom (check_all_providers check utcnow)) = length HEALTH_CHECK_ENDPOINTS \<and>
   (\<forall>p \<in> fst ` set HEALTH_CHECK_ENDPOINTS.
      (\<forall>e. check p = Inl e \<longrightarrow>
         check_all_providers check utcnow p =
           Some \<lparr>status = ''down'', last_check = utcnow, response_time_ms = None,
                 error_message = Some e\<rparr>) \<and>
      (\<forall>st. check p = Inr st \<longrightarrow> check_all_providers check utcnow p = Some st))"
proof -
  have d: "distinct (map fst HEALTH_CHECK_ENDPOINTS)"
    by (simp add: HEALTH_CHECK_ENDPOINTS_def)
  show ?thesis
    unfolding check_all_providers_def by (rule check_all_providers_of_entries [OF d])
qed

theorem check_all_providers_isolates_failures_witness:
  "distinct (map fst HEALTH_CHECK_ENDPOINTS) \<and>
   card (dom (check_all_providers
     (\<lambda>p. if p = ''together'' then Inl ''connection reset''
          else Inr \<lparr>status = ''healthy'', last_check = 1000, response_time_ms = Some 12,
                    error_message = None\<rparr>) 1001)) = 4 \<and>
   check_all_providers
     (\<lambda>p. if p = ''together'' then Inl ''connection reset''
          else Inr \<lparr>status = ''healthy'', last_check = 1000, response_time_ms = Some 12,
                    error_message = None\<rparr>) 1001 ''together'' =
     Some \<lparr>status = ''down'', last_check = 1001, response_time_ms = None,
           error_message = Some ''connection reset''\<rparr> \<and>
   check_all_providers
     (\<lambda>p. if p = ''together'' then Inl ''connection reset''
          else Inr \<lparr>status = ''healthy'', last_check = 1000, response_time_ms = Some 12,
                    error_message = None\<rparr>) 1001 ''groq'' =
     Some \<lparr>status = ''healthy'', last_check = 1000, response_time_ms = Some 12,
           error_message = None\<rparr>"
proof -
  have d: "distinct (map fst HEALTH_CHECK_ENDPOINTS)"
    by (simp add: HEALTH_CHECK_ENDPOINTS_def)
  have m: "''together'' \<in> fst ` set HEALTH_CHECK_ENDPOINTS" "''groq'' \<in> fst ` set HEALTH_CHECK_ENDPOINTS"
    by (simp_all add: HEALTH_CHECK_ENDPOINTS_def)
  have l: "length HEALTH_CHECK_ENDPOINTS = 4" by (simp add: HEALTH_CHECK_ENDPOINTS_def)
  note inst = check_all_providers_isolates_failures [of
     "\<lambda>p. if p = ''together'' then Inl ''connection reset''
          else Inr \<lparr>status = ''healthy'', last_check = 1000, response_time_ms = Some 12,
                    error_message = None\<rparr>" 1001]
  note each = inst [THEN conjunct2, THEN conjunct2, THEN bspec]
  have c: "card (dom (check_all_providers
     (\<lambda>p. if p = ''together'' then Inl ''connection reset''
          else Inr \<lparr>status = ''healthy'', last_check = 1000, response_time_ms = Some 12,
                    error_message = None\<rparr>) 1001)) = 4"
    using inst [THEN conjunct2, THEN conjunct1] unfolding l .
  from each [OF m(1)] each [OF m(2)] d c show ?thesis by simp
qed

lemma probe_status:
  "status (check_provider_endpoint nt p url t0 t1) =
     (case nt url of
        Response c \<Rightarrow>
          if c = 200 then ''healthy''
          else if 200 < c \<and> c < 500 then ''degraded''
          else ''down''
      | TimeoutException \<Rightarrow> ''down''
      | OtherException msg \<Rightarrow> ''down'')"
  by (simp add: check_provider_endpoint_def Let_def split: probe_outcome.splits)

lemma fold_status:
  "status (fold_circuit_state cs hs) =
     (if cs = OPEN then ''down''
      else if cs = HALF_OPEN \<and> status hs = ''healthy'' then ''degraded''
      else status hs)"
  by (simp add: fold_circuit_state_def)

text \<open>
  Claim C4, as the code has it. On a cache miss (no live entry, or a cache read that
  raises) for a registered provider, \<open>check_provider_health\<close> probes the endpoint and
  classifies the outcome: status 200 is healthy; every other status strictly between 200
  and 500 is degraded; every other status, a timeout and any other exception are down.
  It then folds in the circuit state that \<open>get_state\<close> returns: Open forces down
  whatever the probe said, Half-Open turns healthy into degraded, and nothing else
  changes. The folded status is written to the cache under the provider's key, to expire
  after 60 seconds, and returned; a cache write that raises is ignored, and the cache is
  then as it was.
\<close>

theorem health_check_on_cache_miss:
  assumes miss: "cache_get_raises env \<or> redis_get cache (start_time env) (get_cache_key p) = None"
    and known: "map_of HEALTH_CHECK_ENDPOINTS p = Some url"
  shows "let probed = check_provider_endpoint (net env) p url (start_time env) (end_time env);
             circuit_state = fst (get_state cb (end_time env) p);
             (health_status, cb', cache') = check_provider_health env cb cache p
         in status probed =
              (case net env url of
                 Response c \<Rightarrow>
                   if c = 200 then ''healthy''
                   else if 200 < c \<and> c < 500 then ''degraded''
                   else ''down''
               | TimeoutException \<Rightarrow> ''down''
               | OtherException msg \<Rightarrow> ''down'') \<and>
            status health_status =
              (if circuit_state = OPEN then ''down''
               else if circuit_state = HALF_OPEN \<and> status probed = ''healthy'' then ''degraded''
               else status probed) \<and>
            cb' = snd (get_state cb (end_time env) p) \<and>
            (\<not> cache_setex_raises env \<longrightarrow>
               cache' = cache(get_cache_key p \<mapsto> (health_status, Some (end_time env + 60)))) \<and>
            (cache_setex_raises env \<longrightarrow> cache' = cache)"
proof -
  have m: "(if cache_get_raises env then None
            else redis_get cache (start_time env) (get_cache_key p)) = None"
    using miss by auto
  let ?probed = "check_provider_endpoint (net env) p url (start_time env) (end_time env)"
  let ?hs = "fold_circuit_state (fst (get_state cb (end_time env) p)) ?probed"
  have r: "check_provider_health env cb cache p =
         (?hs, snd (get_state cb (end_time env) p),
          if cache_setex_raises env then cache
          else redis_setex cache (end_time env) (get_cache_key p) CACHE_TTL ?hs)"
    by (simp add: check_provider_health_def Let_def m known split_beta)
  show ?thesis
    unfolding r Let_def split_conv
    by (simp add: probe_status fold_status redis_setex_def CACHE_TTL_def)
qed

theorem health_check_on_cache_miss_witness:
  "map_of HEALTH_CHECK_ENDPOINTS ''groq'' = Some ''https://api.groq.com/openai/v1/models'' \<and>
   status (fst (check_provider_health
     \<lparr>net = (\<lambda>url. Response 200), cache_get_raises = False, cache_setex_raises = False,
      start_time = 130, end_time = 131\<rparr>
     (record_failures (new_breaker default_config)
        [(100, 100), (101, 101), (102, 102), (103, 103), (104, 104)] ''groq'')
     Map.empty ''groq'')) = ''down'' \<and>
   status (fst (check_provider_health
     \<lparr>net = (\<lambda>url. Response 200), cache_get_raises = False, cache_setex_raises = False,
      start_time = 170, end_time = 171\<rparr>
     (record_failures (new_breaker default_config)
        [(100, 100), (101, 101), (102, 102), (103, 103), (104, 104)] ''groq'')
     Map.empty ''groq'')) = ''degraded'' \<and>
   status (fst (check_provider_health
     \<lparr>net = (\<lambda>url. Response 404), cache_get_raises = True, cache_setex_raises = True,
      start_time = 170, end_time = 171\<rparr>
     (new_breaker default_config) Map.empty ''groq'')) = ''degraded''"
proof -
  let ?cb = "record_failures (new_breaker default_config)
            [(100, 100), (101, 101), (102, 102), (103, 103), (104, 104)] ''groq''"
  let ?e1 = "\<lparr>net = (\<lambda>url. Response 200), cache_get_raises = False, cache_setex_raises = False,
      start_time = 130, end_time = 131\<rparr>"
  let ?e2 = "\<lparr>net = (\<lambda>url. Response 200), cache_get_raises = False, cache_setex_raises = False,
      start_time = 170, end_time = 171\<rparr>"
  let ?e3 = "\<lparr>net = (\<lambda>url. Response 404), cache_get_raises = True, cache_setex_raises = True,
      start_time = 170, end_time = 171\<rparr>"
  have k: "map_of HEALTH_CHECK_ENDPOINTS ''groq'' = Some ''https://api.groq.com/openai/v1/models''"
    by (simp add: HEALTH_CHECK_ENDPOINTS_def)
  have f: "fetch ?cb ''groq'' =
     \<lparr>state = OPEN, failure_count = 5, success_count = 0, last_failure_time = Some 104,
      opened_at = Some 104, timeout = 60\<rparr>"
    by (simp add: record_failure_def Let_def new_breaker_simps default_config_simps new_state_def)
  have g1: "fst (get_state ?cb 131 ''groq'') = OPEN"
    unfolding get_state_def Let_def fst_conv f by (simp add: lazy_half_open_def truthy_def)
  have g2: "fst (get_state ?cb 171 ''groq'') = HALF_OPEN"
    unfolding get_state_def Let_def fst_conv f by (simp add: lazy_half_open_def truthy_def)
  have g3: "fst (get_state (new_breaker default_config) 171 ''groq'') = CLOSED"
    by (simp add: get_state_def Let_def new_breaker_simps new_state_def lazy_half_open_def)
  have m1: "cache_get_raises ?e1 \<or> redis_get Map.empty (start_time ?e1) (get_cache_key ''groq'') = None"
    and m2: "cache_get_raises ?e2 \<or> redis_get Map.empty (start_time ?e2) (get_cache_key ''groq'') = None"
    and m3: "cache_get_raises ?e3 \<or> redis_get Map.empty (start_time ?e3) (get_cache_key ''groq'') = None"
    by (simp_all add: redis_get_def)
  from health_check_on_cache_miss [OF m1 k, of "?cb"] g1
  have a: "status (fst (check_provider_health ?e1 ?cb Map.empty ''groq'')) = ''down''"
    by (simp add: Let_def split_beta del: record_failures.simps)
  from health_check_on_cache_miss [OF m2 k, of "?cb"] g2
  have b: "status (fst (check_provider_health ?e2 ?cb Map.empty ''groq'')) = ''degraded''"
    by (simp add: Let_def split_beta del: record_failures.simps)
  from health_check_on_cache_miss [OF m3 k, of "new_breaker default_config"] g3
  have c: "status (fst (check_provider_health ?e3 (new_breaker default_config) Map.empty ''groq'')) = ''degraded''"
    by (simp add: Let_def split_beta)
  show ?thesis using k a b c by blast
qed

text \<open>
  Claim C4 as stated fails for the 2xx statuses other than 200: a probe answered with 204,
  for a provider whose circuit is Closed, gives degraded, not healthy.
\<close>

theorem status_204_is_degraded:
  "status (fst (check_provider_health
     \<lparr>net = (\<lambda>url. Response 204), cache_get_raises = False, cache_setex_raises = False,
      start_time = 1000, end_time = 1001\<rparr>
     (new_breaker default_config) Map.empty ''groq'')) = ''degraded''"
  by (simp add: check_provider_health_def Let_def redis_get_def HEALTH_CHECK_ENDPOINTS_def
        check_provider_endpoint_def get_state_def lazy_half_open_def new_breaker_simps
        new_state_def fold_circuit_state_def split_beta)

section \<open>Properties of the model registry\<close>

lemma first_min_split:
  "(\<forall>y \<in> set ys. snd best < snd y) \<Longrightarrow> (\<forall>z \<in> set zs. snd best \<le> snd z) \<Longrightarrow>
   \<exists>ys' zs'. ys @ best # zs @ xs = ys' @ first_min best xs # zs' \<and>
     (\<forall>y \<in> set ys'. snd (first_min best xs) < snd y) \<and>
     (\<forall>z \<in> set zs'. snd (first_min best xs) \<le> snd z)"
proof (induction xs arbitrary: best ys zs)
  case Nil
  then show ?case by auto
next
  case (Cons x xs)
  show ?case
  proof (cases "snd x < snd best")
    case True
    have a: "\<forall>y \<in> set (ys @ best # zs). snd x < snd y"
      using Cons.prems True by fastforce
    have b: "\<forall>z \<in> set ([] :: ('a \<times> rat) list). snd x \<le> snd z" by simp
    from Cons.IH [OF a b] show ?thesis using True by simp
  next
    case False
    have b: "\<forall>z \<in> set (zs @ [x]). snd best \<le> snd z"
      using Cons.prems(2) False by auto
    from Cons.IH [OF Cons.prems(1) b] show ?thesis using False by simp
  qed
qed

lemma first_max_split:
  "(\<forall>y \<in> set ys. snd y < snd best) \<Longrightarrow> (\<forall>z \<in> set zs. snd z \<le> snd best) \<Longrightarrow>
   \<exists>ys' zs'. ys @ best # zs @ xs = ys' @ first_max best xs # zs' \<and>
     (\<forall>y \<in> set ys'. snd y < snd (first_max best xs)) \<and>
     (\<forall>z \<in> set zs'. snd z \<le> snd (first_max best xs))"
proof (induction xs arbitrary: best ys zs)
  case Nil
  then show ?case by auto
next
  case (Cons x xs)
  show ?case
  proof (cases "snd x > snd best")
    case True
    have a: "\<forall>y \<in> set (ys @ best # zs). snd y < snd x"
      using Cons.prems True by fastforce
    have b: "\<forall>z \<in> set ([] :: ('a \<times> rat) list). snd z \<le> snd x" by simp
    from Cons.IH [OF a b] show ?thesis using True by simp
  next
    case False
    have b: "\<forall>z \<in> set (zs @ [x]). snd z \<le> snd best"
      using Cons.prems(2) False by auto
    from Cons.IH [OF Cons.prems(1) b] show ?thesis using False by simp
  qed
qed

lemma registry_keys_entries:
  "distinct (map fst reg) \<Longrightarrow> set xs \<subseteq> set reg \<Longrightarrow>
   registry_keys reg f (map fst xs) = Inr (map (\<lambda>(m, cfg). (m, f cfg)) xs)"
proof (induction xs)
  case Nil
  then show ?case by simp
next
  case (Cons x xs)
  obtain m cfg where x: "x = (m, cfg)" by (cases x)
  have "map_of reg m = Some cfg"
    using Cons.prems x by (intro map_of_is_SomeI) auto
  then show ?case using Cons x by simp
qed

lemma models_supporting: "get_models_for_task_type_in reg t = map fst (supporting reg t)"
  by (simp add: get_models_for_task_type_in_def supporting_def)

lemma py_min_supporting:
  assumes d: "distinct (map fst reg)" and ne: "supporting reg t \<noteq> []"
  shows "\<exists>m cfg ys zs. py_min reg f (map fst (supporting reg t)) = Inr m \<and>
           supporting reg t = ys @ (m, cfg) # zs \<and>
           (\<forall>y \<in> set ys. f cfg < f (snd y)) \<and> (\<forall>z \<in> set zs. f cfg \<le> f (snd z))"
proof -
  let ?kv = "\<lambda>(m, cfg). (m, f cfg)"
  obtain x xs where sx: "supporting reg t = x # xs" using ne by (cases "supporting reg t") auto
  have sub: "set (supporting reg t) \<subseteq> set reg" by (auto simp: supporting_def)
  have keys: "registry_keys reg f (map fst (supporting reg t)) = Inr (?kv x # map ?kv xs)"
    using registry_keys_entries [OF d sub, of f] by (simp add: sx)
  have r: "py_min reg f (map fst (supporting reg t)) = Inr (fst (first_min (?kv x) (map ?kv xs)))"
    by (simp add: py_min_def keys)
  from first_min_split [of "[]" "?kv x" "[]" "map ?kv xs"]
  obtain ys' zs' where sp: "?kv x # map ?kv xs = ys' @ first_min (?kv x) (map ?kv xs) # zs'"
    and lo: "\<forall>y \<in> set ys'. snd (first_min (?kv x) (map ?kv xs)) < snd y"
    and hi: "\<forall>z \<in> set zs'. snd (first_min (?kv x) (map ?kv xs)) \<le> snd z"
    by auto
  from sp have "map ?kv (supporting reg t) = ys' @ first_min (?kv x) (map ?kv xs) # zs'"
    by (simp add: sx)
  then obtain ys e zs where e: "supporting reg t = ys @ e # zs" "map ?kv ys = ys'"
      "?kv e = first_min (?kv x) (map ?kv xs)" "map ?kv zs = zs'"
    by (auto simp: map_eq_append_conv map_eq_Cons_conv)
  obtain m cfg where mc: "e = (m, cfg)" by (cases e)
  have fm: "first_min (?kv x) (map ?kv xs) = (m, f cfg)" using e(3) mc by simp
  have "\<forall>y \<in> set ys. f cfg < f (snd y)"
  proof
    fix y assume "y \<in> set ys"
    then have "?kv y \<in> set ys'" unfolding e(2) [symmetric] by simp
    with lo show "f cfg < f (snd y)" unfolding fm by (force simp: split_beta)
  qed
  moreover have "\<forall>z \<in> set zs. f cfg \<le> f (snd z)"
  proof
    fix z assume "z \<in> set zs"
    then have "?kv z \<in> set zs'" unfolding e(4) [symmetric] by simp
    with hi show "f cfg \<le> f (snd z)" unfolding fm by (force simp: split_beta)
  qed
  ultimately show ?thesis
    using r e(1) mc fm by (intro exI [of _ m] exI [of _ cfg] exI [of _ ys] exI [of _ zs]) simp
qed

lemma py_max_supporting:
  assumes d: "distinct (map fst reg)" and ne: "supporting reg t \<noteq> []"
  shows "\<exists>m cfg ys zs. py_max reg f (map fst (supporting reg t)) = Inr m \<and>
           supporting reg t = ys @ (m, cfg) # zs \<and>
           (\<forall>y \<in> set ys. f (snd y) < f cfg) \<and> (\<forall>z \<in> set zs. f (snd z) \<le> f cfg)"
proof -
  let ?kv = "\<lambda>(m, cfg). (m, f cfg)"
  obtain x xs where sx: "supporting reg t = x # xs" using ne by (cases "supporting reg t") auto
  have sub: "set (supporting reg t) \<subseteq> set reg" by (auto simp: supporting_def)
  have keys: "registry_keys reg f (map fst (supporting reg t)) = Inr (?kv x # map ?kv xs)"
    using registry_keys_entries [OF d sub, of f] by (simp add: sx)
  have r: "py_max reg f (map fst (supporting reg t)) = Inr (fst (first_max (?kv x) (map ?kv xs)))"
    by (simp add: py_max_def keys)
  from first_max_split [of "[]" "?kv x" "[]" "map ?kv xs"]
  obtain ys' zs' where sp: "?kv x # map ?kv xs = ys' @ first_max (?kv x) (map ?kv xs) # zs'"
    and lo: "\<forall>y \<in> set ys'. snd y < snd (first_max (?kv x) (map ?kv xs))"
    and hi: "\<forall>z \<in> set zs'. snd z \<le> snd (first_max (?kv x) (map ?kv xs))"
    by auto
  from sp have "map ?kv (supporting reg t) = ys' @ first_max (?kv x) (map ?kv xs) # zs'"
    by (simp add: sx)
  then obtain ys e zs where e: "supporting reg t = ys @ e # zs" "map ?kv ys = ys'"
      "?kv e = first_max (?kv x) (map ?kv xs)" "map ?kv zs = zs'"
    by (auto simp: map_eq_append_conv map_eq_Cons_conv)
  obtain m cfg where mc: "e = (m, cfg)" by (cases e)
  have fm: "first_max (?kv x) (map ?kv xs) = (m, f cfg)" using e(3) mc by simp
  have "\<forall>y \<in> set ys. f (snd y) < f cfg"
  proof
    fix y assume "y \<in> set ys"
    then have "?kv y \<in> set ys'" unfolding e(2) [symmetric] by simp
    with lo show "f (snd y) < f cfg" unfolding fm by (force simp: split_beta)
  qed
  moreover have "\<forall>z \<in> set zs. f (snd z) \<le> f cfg"
  proof
    fix z assume "z \<in> set zs"
    then have "?kv z \<in> set zs'" unfolding e(4) [symmetric] by simp
    with hi show "f (snd z) \<le> f cfg" unfolding fm by (force simp: split_beta)
  qed
  ultimately show ?thesis
    using r e(1) mc fm by (intro exI [of _ m] exI [of _ cfg] exI [of _ ys] exI [of _ zs]) simp
qed


lemma filter_split:
  "filter P xs = ys' @ x # zs' \<Longrightarrow>
   \<exists>ys zs. xs = ys @ x # zs \<and> filter P ys = ys' \<and> filter P zs = zs'"
proof (induction ys' arbitrary: xs)
  case Nil
  then have "filter P xs = x # zs'" by simp
  from filter_eq_ConsD [OF this]
  obtain us vs where "xs = us @ x # vs" "\<forall>u \<in> set us. \<not> P u" "zs' = filter P vs" by blast
  then show ?case by (intro exI [of _ us] exI [of _ vs]) simp
next
  case (Cons y ys')
  then have "filter P xs = y # (ys' @ x # zs')" by simp
  from filter_eq_ConsD [OF this]
  obtain us vs where uv: "xs = us @ y # vs" "\<forall>u \<in> set us. \<not> P u" "P y"
    "ys' @ x # zs' = filter P vs" by blast
  from Cons.IH [OF uv(4) [symmetric]]
  obtain ys2 zs2 where "vs = ys2 @ x # zs2" "filter P ys2 = ys'" "filter P zs2 = zs'" by blast
  then show ?case using uv by (intro exI [of _ "us @ y # ys2"] exI [of _ zs2]) simp
qed

lemma supporting_split:
  assumes "supporting reg t = ys' @ (m, cfg) # zs'"
    and "\<forall>y \<in> set ys'. lo (snd y)" and "\<forall>z \<in> set zs'. hi (snd z)"
  shows "\<exists>ys zs. reg = ys @ (m, cfg) # zs \<and> t \<in> set (capabilities cfg) \<and>
           (\<forall>(m', cfg') \<in> set ys. t \<in> set (capabilities cfg') \<longrightarrow> lo cfg') \<and>
           (\<forall>(m', cfg') \<in> set zs. t \<in> set (capabilities cfg') \<longrightarrow> hi cfg')"
proof -
  let ?P = "\<lambda>(model_id, cfg). t \<in> set (capabilities cfg)"
  from assms(1) have f: "filter ?P reg = ys' @ (m, cfg) # zs'" by (simp add: supporting_def)
  from filter_split [OF f]
  obtain ys zs where s: "reg = ys @ (m, cfg) # zs" "filter ?P ys = ys'" "filter ?P zs = zs'"
    by blast
  have "(m, cfg) \<in> set (filter ?P reg)" unfolding f by simp
  then have c: "t \<in> set (capabilities cfg)" by simp
  have a: "\<forall>(m', cfg') \<in> set ys. t \<in> set (capabilities cfg') \<longrightarrow> lo cfg'"
    using assms(2) s(2) by fastforce
  have b: "\<forall>(m', cfg') \<in> set zs. t \<in> set (capabilities cfg') \<longrightarrow> hi cfg'"
    using assms(3) s(3) by fastforce
  show ?thesis using s(1) c a b by blast
qed

lemma selector_min:
  assumes d: "distinct (map fst reg)" and ne: "get_models_for_task_type_in reg t \<noteq> []"
  shows "\<exists>m cfg ys zs. py_min reg f (get_models_for_task_type_in reg t) = Inr m \<and>
           reg = ys @ (m, cfg) # zs \<and> t \<in> set (capabilities cfg) \<and>
           (\<forall>(m', cfg') \<in> set ys. t \<in> set (capabilities cfg') \<longrightarrow> f cfg < f cfg') \<and>
           (\<forall>(m', cfg') \<in> set zs. t \<in> set (capabilities cfg') \<longrightarrow> f cfg \<le> f cfg')"
proof -
  from ne have ne': "supporting reg t \<noteq> []" by (simp add: models_supporting)
  from py_min_supporting [OF d ne', of f]
  obtain m cfg ys' zs' where r: "py_min reg f (map fst (supporting reg t)) = Inr m"
    and sp: "supporting reg t = ys' @ (m, cfg) # zs'"
    and lo: "\<forall>y \<in> set ys'. f cfg < f (snd y)" and hi: "\<forall>z \<in> set zs'. f cfg \<le> f (snd z)"
    by blast
  from supporting_split [OF sp, of "\<lambda>c. f cfg < f c" "\<lambda>c. f cfg \<le> f c"] lo hi
  show ?thesis using r unfolding models_supporting by blast
qed

lemma selector_max:
  assumes d: "distinct (map fst reg)" and ne: "get_models_for_task_type_in reg t \<noteq> []"
  shows "\<exists>m cfg ys zs. py_max reg f (get_models_for_task_type_in reg t) = Inr m \<and>
           reg = ys @ (m, cfg) # zs \<and> t \<in> set (capabilities cfg) \<and>
           (\<forall>(m', cfg') \<in> set ys. t \<in> set (capabilities cfg') \<longrightarrow> f cfg' < f cfg) \<and>
           (\<forall>(m', cfg') \<in> set zs. t \<in> set (capabilities cfg') \<longrightarrow> f cfg' \<le> f cfg)"
proof -
  from ne have ne': "supporting reg t \<noteq> []" by (simp add: models_supporting)
  from py_max_supporting [OF d ne', of f]
  obtain m cfg ys' zs' where r: "py_max reg f (map fst (supporting reg t)) = Inr m"
    and sp: "supporting reg t = ys' @ (m, cfg) # zs'"
    and lo: "\<forall>y \<in> set ys'. f (snd y) < f cfg" and hi: "\<forall>z \<in> set zs'. f (snd z) \<le> f cfg"
    by blast
  from supporting_split [OF sp, of "\<lambda>c. f c < f cfg" "\<lambda>c. f c \<le> f cfg"] lo hi
  show ?thesis using r unfolding models_supporting by blast
qed

lemma MODEL_REGISTRY_distinct: "distinct (map fst MODEL_REGISTRY)"
  by (simp add: MODEL_REGISTRY_def)

lemma models_empty_iff:
  "get_models_for_task_type_in reg t = [] \<longleftrightarrow>
   \<not> (\<exists>(m, cfg) \<in> set reg. t \<in> set (capabilities cfg))"
  by (auto simp: get_models_for_task_type_in_def filter_empty_conv)

text \<open>
  Claim C6. For a task type that at least one entry of the registry declares, each of the
  three selectors returns a model id \<open>m\<close> of the registry, with configuration \<open>cfg\<close>,
  such that \<open>cfg\<close> declares the task type and, splitting the registry at that entry,
  \<^item> cheapest: every entry before it that declares the task type has a strictly larger
    \<open>cost_per_input_token + cost_per_output_token\<close>, and every such entry after it
    has one at least as large (the minimum; the first in catalog order among equals);
  \<^item> fastest: the same with \<open>average_latency\<close>;
  \<^item> best quality: every entry before it that declares the task type has a strictly
    smaller \<open>reliability_score\<close>, and every such entry after it has one at most as
    large (the maximum).

  For a task type that no entry declares, each selector raises the no-candidates error
  (the \<^verbatim>\<open>ValueError\<close> of the code) and returns no model.
\<close>

theorem capability_selectors_optimal:
  "((\<exists>(m, cfg) \<in> set MODEL_REGISTRY. t \<in> set (capabilities cfg)) \<longrightarrow>
      (\<exists>m cfg ys zs.
         get_cheapest_model_for_task t = Inr m \<and>
         MODEL_REGISTRY = ys @ (m, cfg) # zs \<and> t \<in> set (capabilities cfg) \<and>
         (\<forall>(m', cfg') \<in> set ys. t \<in> set (capabilities cfg') \<longrightarrow> total_cost cfg < total_cost cfg') \<and>
         (\<forall>(m', cfg') \<in> set zs. t \<in> set (capabilities cfg') \<longrightarrow> total_cost cfg \<le> total_cost cfg')) \<and>
      (\<exists>m cfg ys zs.
         get_fastest_model_for_task t = Inr m \<and>
         MODEL_REGISTRY = ys @ (m, cfg) # zs \<and> t \<in> set (capabilities cfg) \<and>
         (\<forall>(m', cfg') \<in> set ys. t \<in> set (capabilities cfg') \<longrightarrow> average_latency cfg < average_latency cfg') \<and>
         (\<forall>(m', cfg') \<in> set zs. t \<in> set (capabilities cfg') \<longrightarrow> average_latency cfg \<le> average_latency cfg')) \<and>
      (\<exists>m cfg ys zs.
         get_best_quality_model_for_task t = Inr m \<and>
         MODEL_REGISTRY = ys @ (m, cfg) # zs \<and> t \<in> set (capabilities cfg) \<and>
         (\<forall>(m', cfg') \<in> set ys. t \<in> set (capabilities cfg') \<longrightarrow> reliability_score cfg' < reliability_score cfg) \<and>
         (\<forall>(m', cfg') \<in> set zs. t \<in> set (capabilities cfg') \<longrightarrow> reliability_score cfg' \<le> reliability_score cfg))) \<and>
   (\<not> (\<exists>(m, cfg) \<in> set MODEL_REGISTRY. t \<in> set (capabilities cfg)) \<longrightarrow>
      get_cheapest_model_for_task t = Inl (NoModelsFound t) \<and>
      get_fastest_model_for_task t = Inl (NoModelsFound t) \<and>
      get_best_quality_model_for_task t = Inl (NoModelsFound t))"
proof (intro conjI impI)
  assume "\<exists>(m, cfg) \<in> set MODEL_REGISTRY. t \<in> set (capabilities cfg)"
  then have ne: "get_models_for_task_type_in MODEL_REGISTRY t \<noteq> []"
    by (simp add: models_empty_iff)
  show "\<exists>m cfg ys zs.
         get_cheapest_model_for_task t = Inr m \<and>
         MODEL_REGISTRY = ys @ (m, cfg) # zs \<and> t \<in> set (capabilities cfg) \<and>
         (\<forall>(m', cfg') \<in> set ys. t \<in> set (capabilities cfg') \<longrightarrow> total_cost cfg < total_cost cfg') \<and>
         (\<forall>(m', cfg') \<in> set zs. t \<in> set (capabilities cfg') \<longrightarrow> total_cost cfg \<le> total_cost cfg')"
    using selector_min [OF MODEL_REGISTRY_distinct ne, of total_cost] ne
    by (simp add: get_cheapest_model_for_task_def get_cheapest_model_for_task_in_def Let_def)
  show "\<exists>m cfg ys zs.
         get_fastest_model_for_task t = Inr m \<and>
         MODEL_REGISTRY = ys @ (m, cfg) # zs \<and> t \<in> set (capabilities cfg) \<and>
         (\<forall>(m', cfg') \<in> set ys. t \<in> set (capabilities cfg') \<longrightarrow> average_latency cfg < average_latency cfg') \<and>
         (\<forall>(m', cfg') \<in> set zs. t \<in> set (capabilities cfg') \<longrightarrow> average_latency cfg \<le> average_latency cfg')"
    using selector_min [OF MODEL_REGISTRY_distinct ne, of average_latency] ne
    by (simp add: get_fastest_model_for_task_def get_fastest_model_for_task_in_def Let_def)
  show "\<exists>m cfg ys zs.
         get_best_quality_model_for_task t = Inr m \<and>
         MODEL_REGISTRY = ys @ (m, cfg) # zs \<and> t \<in> set (capabilities cfg) \<and>
         (\<forall>(m', cfg') \<in> set ys. t \<in> set (capabilities cfg') \<longrightarrow> reliability_score cfg' < reliability_score cfg) \<and>
         (\<forall>(m', cfg') \<in> set zs. t \<in> set (capabilities cfg') \<longrightarrow> reliability_score cfg' \<le> reliability_score cfg)"
    using selector_max [OF MODEL_REGISTRY_distinct ne, of reliability_score] ne
    by (simp add: get_best_quality_model_for_task_def get_best_quality_model_for_task_in_def Let_def)
next
  assume "\<not> (\<exists>(m, cfg) \<in> set MODEL_REGISTRY. t \<in> set (capabilities cfg))"
  then have e: "get_models_for_task_type_in MODEL_REGISTRY t = []"
    by (simp add: models_empty_iff)
  show "get_cheapest_model_for_task t = Inl (NoModelsFound t)"
    by (simp add: get_cheapest_model_for_task_def get_cheapest_model_for_task_in_def e)
  show "get_fastest_model_for_task t = Inl (NoModelsFound t)"
    by (simp add: get_fastest_model_for_task_def get_fastest_model_for_task_in_def e)
  show "get_best_quality_model_for_task t = Inl (NoModelsFound t)"
    by (simp add: get_best_quality_model_for_task_def get_best_quality_model_for_task_in_def e)
qed


theorem capability_selectors_optimal_witness:
  "(\<exists>(m, cfg) \<in> set MODEL_REGISTRY. REASONING \<in> set (capabilities cfg)) \<and>
   (\<exists>cfg ys zs.
      get_cheapest_model_for_task REASONING = Inr ''ollama-llama2'' \<and>
      MODEL_REGISTRY = ys @ (''ollama-llama2'', cfg) # zs \<and> REASONING \<in> set (capabilities cfg) \<and>
      (\<forall>(m', cfg') \<in> set ys. REASONING \<in> set (capabilities cfg') \<longrightarrow>
         total_cost cfg < total_cost cfg')) \<and>
   \<not> (\<exists>(m, cfg) \<in> set MODEL_REGISTRY. VERIFICATION \<in> set (capabilities cfg)) \<and>
   get_best_quality_model_for_task VERIFICATION = Inl (NoModelsFound VERIFICATION)"
proof -
  have h: "\<exists>(m, cfg) \<in> set MODEL_REGISTRY. REASONING \<in> set (capabilities cfg)"
    by (simp add: MODEL_REGISTRY_def)
  have n: "\<not> (\<exists>(m, cfg) \<in> set MODEL_REGISTRY. VERIFICATION \<in> set (capabilities cfg))"
    by (simp add: MODEL_REGISTRY_def)
  have v: "get_cheapest_model_for_task REASONING = Inr ''ollama-llama2''"
    by code_simp
  from capability_selectors_optimal [of REASONING, THEN conjunct1, THEN mp, OF h, THEN conjunct1]
  obtain m cfg ys zs where c: "get_cheapest_model_for_task REASONING = Inr m"
    "MODEL_REGISTRY = ys @ (m, cfg) # zs" "REASONING \<in> set (capabilities cfg)"
    "\<forall>(m', cfg') \<in> set ys. REASONING \<in> set (capabilities cfg') \<longrightarrow> total_cost cfg < total_cost cfg'"
    by blast
  from c(1) v have m: "m = ''ollama-llama2''" by simp
  from capability_selectors_optimal [of VERIFICATION, THEN conjunct2, THEN mp, OF n]
  have b: "get_best_quality_model_for_task VERIFICATION = Inl (NoModelsFound VERIFICATION)"
    by simp
  show ?thesis using h n v b c(2,3,4) unfolding m by blast
qed

end
